theory Spec2Isabelle
  imports Complex_Main "HOL-Library.Sublist"
begin

section \<open>Python strings and the regular expressions the helpers use\<close>

text \<open>
  A Python \<^verbatim>\<open>str\<close> is a sequence of Unicode code points; it is modelled as a list of
  natural numbers, so that \<^verbatim>\<open>len\<close> is \<open>length\<close> and slicing \<^verbatim>\<open>s[:n]\<close> is \<open>take n\<close>.
  \<open>str\<close> turns an Isabelle literal into such a list.
\<close>

type_synonym ustr = "nat list"

definition str :: "string \<Rightarrow> ustr" where
  "str s = map of_char s"

text \<open>
  \<^verbatim>\<open>str.isspace\<close> on one code point. Python's \<^verbatim>\<open>str.strip()\<close> and the class \<^verbatim>\<open>\s\<close> of
  \<^verbatim>\<open>re\<close> (on \<^verbatim>\<open>str\<close> patterns) both use this table: U+0009..U+000D, U+001C..U+001F,
  U+0020, U+0085, U+00A0, U+1680, U+2000..U+200A, U+2028, U+2029, U+202F, U+205F, U+3000.
\<close>

definition isspace :: "nat \<Rightarrow> bool" where
  "isspace c = (c \<in> {9, 10, 11, 12, 13, 28, 29, 30, 31, 32, 133, 160, 5760,
      8192, 8193, 8194, 8195, 8196, 8197, 8198, 8199, 8200, 8201, 8202,
      8232, 8233, 8239, 8287, 12288})"

definition nonspace :: "nat \<Rightarrow> bool" where
  "nonspace c = (\<not> isspace c)"

definition NL :: nat where
  "NL = 10"

text \<open>\<^verbatim>\<open>s.strip()\<close>: leading and trailing white space removed.\<close>

definition strip :: "ustr \<Rightarrow> ustr" where
  "strip s = rev (dropWhile isspace (rev (dropWhile isspace s)))"

text \<open>\<^verbatim>\<open>s.startswith(p)\<close>.\<close>

definition startswith :: "ustr \<Rightarrow> ustr \<Rightarrow> bool" where
  "startswith s p = (take (length p) s = p)"

subsection \<open>A backtracking matcher for sequences of quantified character classes\<close>

text \<open>
  Every pattern of the two source files is a concatenation of character classes, each with
  a greedy quantifier: a literal or class once, \<^verbatim>\<open>x?\<close>, \<^verbatim>\<open>x+\<close>, \<^verbatim>\<open>x{3,}\<close>. An \<open>item\<close> is one
  class with its bounds (\<open>hi = None\<close>: unbounded).

  \<open>rmatch pat s\<close> is the length of the match of \<open>pat\<close> at the start of \<open>s\<close>, as the
  backtracking engine of \<^verbatim>\<open>re\<close> finds it: an item first takes as many characters as it can
  (\<open>reach\<close>), and gives them back one at a time (\<open>tries\<close>) until the rest of the pattern
  matches.
\<close>

datatype item = Item (cls: "nat \<Rightarrow> bool") (lo: nat) (hi: "nat option")

definition once :: "(nat \<Rightarrow> bool) \<Rightarrow> item" where
  "once p = Item p 1 (Some 1)"

definition maybe :: "(nat \<Rightarrow> bool) \<Rightarrow> item" where
  "maybe p = Item p 0 (Some 1)"

definition many1 :: "(nat \<Rightarrow> bool) \<Rightarrow> item" where
  "many1 p = Item p 1 None"

definition atleast :: "nat \<Rightarrow> (nat \<Rightarrow> bool) \<Rightarrow> item" where
  "atleast n p = Item p n None"

definition lit :: "nat \<Rightarrow> item" where
  "lit c = once (\<lambda>x. x = c)"

definition reach :: "item \<Rightarrow> ustr \<Rightarrow> nat" where
  "reach it s = (let n = length (takeWhile (cls it) s)
                 in case hi it of None \<Rightarrow> n | Some h \<Rightarrow> min h n)"

primrec tries :: "(ustr \<Rightarrow> nat option) \<Rightarrow> ustr \<Rightarrow> nat \<Rightarrow> nat \<Rightarrow> nat option" where
  "tries g s l 0 = (if l = 0 then g s else None)"
| "tries g s l (Suc k) =
     (if Suc k < l then None
      else (case g (drop (Suc k) s) of
              Some n \<Rightarrow> Some (Suc k + n)
            | None \<Rightarrow> tries g s l k))"

primrec rmatch :: "item list \<Rightarrow> ustr \<Rightarrow> nat option" where
  "rmatch [] s = Some 0"
| "rmatch (it # its) s = tries (rmatch its) s (lo it) (reach it s)"

text \<open>
  \<^verbatim>\<open>re.sub(pat, rep, s)\<close> for a pattern that matches no empty string and a replacement
  without group references: scan from the left; where the pattern matches, emit the
  replacement and go on after the match; elsewhere copy one character.
\<close>

fun re_sub :: "item list \<Rightarrow> ustr \<Rightarrow> ustr \<Rightarrow> ustr" where
  "re_sub pat rep [] = []"
| "re_sub pat rep (c # cs) =
     (case rmatch pat (c # cs) of
        Some (Suc k) \<Rightarrow> rep @ re_sub pat rep (drop k cs)
      | _ \<Rightarrow> c # re_sub pat rep cs)"

section \<open>The helpers of \<^verbatim>\<open>cli_runner.py\<close> and \<^verbatim>\<open>toc_playwright.py\<close>\<close>

subsection \<open>\<^verbatim>\<open>safe_filename\<close>\<close>

text \<open>The class \<^verbatim>\<open>[\t\n\r]\<close>.\<close>

definition tab_nl_cr :: "nat \<Rightarrow> bool" where
  "tab_nl_cr c = (c = 9 \<or> c = 10 \<or> c = 13)"

text \<open>
  The class of the reserved characters: backslash (92), slash (47), colon (58), star (42),
  question mark (63), double quote (34), less (60), greater (62), bar (124).
\<close>

definition reserved :: "nat \<Rightarrow> bool" where
  "reserved c = (c \<in> {92, 47, 58, 42, 63, 34, 60, 62, 124})"

text \<open>
  \<^verbatim>\<open>cli_runner.safe_filename\<close>: the second substitution has the pattern
  \<^verbatim>\<open>[\\/:*?"<>|]+\<close>, with the \<^verbatim>\<open>+\<close>.
\<close>

definition safe_filename_cli :: "ustr \<Rightarrow> ustr" where
  "safe_filename_cli name0 =
     (let name1 = strip (re_sub [once tab_nl_cr] (str '' '') name0);
          name2 = re_sub [many1 reserved] (str ''_'') name1;
          name3 = re_sub [many1 isspace] (str '' '') name2
      in take 150 (if name3 = [] then str ''untitled'' else name3))"

text \<open>
  \<^verbatim>\<open>toc_playwright.safe_filename\<close>: the second substitution has the pattern
  \<^verbatim>\<open>[\\/:*?\"<>|]\<close>, one character at a time.
\<close>

definition safe_filename_gui :: "ustr \<Rightarrow> ustr" where
  "safe_filename_gui name0 =
     (let name1 = strip (re_sub [once tab_nl_cr] (str '' '') name0);
          name2 = re_sub [once reserved] (str ''_'') name1;
          name3 = re_sub [many1 isspace] (str '' '') name2
      in if name3 = [] then str ''untitled'' else take 150 name3)"

subsection \<open>\<^verbatim>\<open>clean_text\<close>\<close>

text \<open>
  A letter of a pattern compiled with \<^verbatim>\<open>re.IGNORECASE\<close>, given in lower case: it matches
  itself and its upper case, and \<^verbatim>\<open>s\<close> also matches U+017F (long s), which \<^verbatim>\<open>re\<close> treats as
  case-equivalent. The two ad patterns hold no \<^verbatim>\<open>i\<close> and no \<^verbatim>\<open>k\<close>, the other letters with
  such an equivalent.
\<close>

definition letter :: "nat \<Rightarrow> item" where
  "letter l = once (\<lambda>c. c = l \<or> c + 32 = l \<or> (l = 115 \<and> c = 383))"

text \<open>
  The class \<^verbatim>\<open>\w\<close>: \<^verbatim>\<open>str.isalnum\<close> or the underscore. \<^verbatim>\<open>str.isalnum\<close> reads the Unicode
  database, which is no part of the repository: it is the parameter \<open>alnum\<close>.
\<close>

definition word :: "(nat \<Rightarrow> bool) \<Rightarrow> nat \<Rightarrow> bool" where
  "word alnum c = (alnum c \<or> c = 95)"

text \<open>\<^verbatim>\<open>str.isalnum\<close> on the ASCII range, for running examples.\<close>

definition ascii_alnum :: "nat \<Rightarrow> bool" where
  "ascii_alnum c = ((48 \<le> c \<and> c \<le> 57) \<or> (65 \<le> c \<and> c \<le> 90) \<or> (97 \<le> c \<and> c \<le> 122))"

text \<open>The patterns \<^verbatim>\<open>Ads by\s+\w+\<close> and \<^verbatim>\<open>Sponsored\s+Content\<close>, both with \<^verbatim>\<open>re.IGNORECASE\<close>.\<close>

definition ads_by :: "(nat \<Rightarrow> bool) \<Rightarrow> item list" where
  "ads_by alnum = map letter (str ''ads'') @ [lit 32] @ map letter (str ''by'')
                  @ [many1 isspace, many1 (word alnum)]"

definition sponsored_content :: "item list" where
  "sponsored_content = map letter (str ''sponsored'') @ [many1 isspace]
                       @ map letter (str ''content'')"

text \<open>The pattern \<^verbatim>\<open>https?://\S+\<close>.\<close>

definition url_pat :: "item list" where
  "url_pat = map lit (str ''http'') @ [maybe (\<lambda>c. c = 115)] @ map lit (str ''://'')
             @ [many1 nonspace]"

text \<open>
  \<^verbatim>\<open>clean_text(text, remove_links, strip_ads)\<close>, the same in both files. The first argument
  is the table behind \<^verbatim>\<open>\w\<close>.
\<close>

definition clean_text :: "(nat \<Rightarrow> bool) \<Rightarrow> ustr \<Rightarrow> bool \<Rightarrow> bool \<Rightarrow> ustr" where
  "clean_text alnum text0 remove_links strip_ads =
     (let text1 = (if strip_ads
                   then re_sub sponsored_content [] (re_sub (ads_by alnum) [] text0)
                   else text0);
          text2 = (if remove_links then re_sub url_pat [] text1 else text1);
          text3 = re_sub [many1 isspace, lit NL] [NL] text2;
          text4 = re_sub [lit NL, many1 isspace] [NL] text3;
          text5 = re_sub [atleast 3 (\<lambda>c. c = NL)] [NL, NL] text4
      in strip text5)"

section \<open>The extraction pipeline\<close>

subsection \<open>Python floats\<close>

text \<open>
  A Python float: a finite double, named by its value, an infinity, or NaN
  (\<^verbatim>\<open>argparse\<close>'s \<^verbatim>\<open>type=float\<close> accepts \<^verbatim>\<open>inf\<close>, \<^verbatim>\<open>-inf\<close> and \<^verbatim>\<open>nan\<close>). A decimal literal that is
  not a double, such as the default 1.2, stands for the double nearest to it.
\<close>

datatype pyfloat = Num real | PosInf | NegInf | NaN

text \<open>\<^verbatim>\<open>x < y\<close> on floats: false as soon as one side is NaN.\<close>

fun flt :: "pyfloat \<Rightarrow> pyfloat \<Rightarrow> bool" where
  "flt NaN y = False"
| "flt x NaN = False"
| "flt (Num x) (Num y) = (x < y)"
| "flt (Num x) PosInf = True"
| "flt (Num x) NegInf = False"
| "flt PosInf y = False"
| "flt NegInf NegInf = False"
| "flt NegInf y = True"

text \<open>
  \<^verbatim>\<open>max(a, b)\<close>: the builtin keeps \<open>a\<close> unless \<^verbatim>\<open>b > a\<close>, so a NaN in second place is dropped.
\<close>

definition pymax :: "pyfloat \<Rightarrow> pyfloat \<Rightarrow> pyfloat" where
  "pymax a b = (if flt a b then b else a)"

subsection \<open>What the code reads from outside\<close>

text \<open>
  Library functions the code calls and the repository does not hold: the table of
  \<^verbatim>\<open>str.isalnum\<close>, \<^verbatim>\<open>urllib.parse.urlparse\<close> (its \<^verbatim>\<open>scheme\<close> and \<^verbatim>\<open>netloc\<close>; \<open>None\<close> when it
  raises \<^verbatim>\<open>ValueError\<close>) and \<^verbatim>\<open>urllib.parse.urljoin\<close>. Of the float arithmetic the model
  takes the rounding as given: \<open>nearest_float x\<close> is the double a result of exact value \<open>x\<close>
  is rounded to (an infinity beyond the range of the doubles). \<open>sleep_max\<close> is the longest
  delay in seconds \<^verbatim>\<open>time.sleep\<close> accepts: above it the call raises \<^verbatim>\<open>OverflowError\<close>
  (CPython counts the delay in nanoseconds in 64 bits, which gives about \<open>9.2e9\<close> seconds).
  They are parameters of the model.
\<close>

record pylib =
  alnum :: "nat \<Rightarrow> bool"
  urlparse :: "ustr \<Rightarrow> (ustr \<times> ustr) option"
  urljoin :: "ustr \<Rightarrow> ustr \<Rightarrow> ustr"
  nearest_float :: "real \<Rightarrow> pyfloat"
  sleep_max :: real

text \<open>
  What the browser answers. Loading the TOC page and evaluating the link selector either
  raises (a Playwright timeout, or another exception) or gives the list of \<^verbatim>\<open>href\<close> values,
  each a string or \<^verbatim>\<open>null\<close>. One visit of a chapter page, as the \<^verbatim>\<open>try\<close> block sees it,
  raises a timeout, raises another exception, or gives what the two \<^verbatim>\<open>eval_on_selector\<close>
  calls return for the title and the content (a string, or \<open>None\<close> for \<^verbatim>\<open>null\<close>).
\<close>

datatype toc_load = LoadTimeout | LoadFailure | Loaded "ustr option list"

datatype visit = Timeout | Failure | Page "ustr option" "ustr option"

text \<open>
  The world of one run: the TOC page, the answer to the \<open>n\<close>-th chapter navigation of the
  run (counted from 0) at a URL, what the \<open>n\<close>-th call of \<^verbatim>\<open>random.uniform\<close> of the run
  returns for its two arguments, and, for the GUI, the value of its \<^verbatim>\<open>is_running\<close> flag when
  chapter \<open>idx\<close> is about to start. Writing files is taken to succeed.
\<close>

record world =
  toc_page :: toc_load
  visit_at :: "nat \<Rightarrow> ustr \<Rightarrow> visit"
  uniform :: "nat \<Rightarrow> pyfloat \<Rightarrow> pyfloat \<Rightarrow> pyfloat"
  is_running :: "nat \<Rightarrow> bool"

subsection \<open>What the code does to the outside\<close>

datatype event =
    Goto ustr
  | Wait int
  | WriteFile ustr ustr
  | Combined ustr
  | Pace real

text \<open>
  \<open>Goto url\<close> is \<^verbatim>\<open>page.goto(url)\<close>, \<open>Wait ms\<close> is \<^verbatim>\<open>page.wait_for_timeout(ms)\<close>,
  \<open>WriteFile name text\<close> writes a chapter file of the output folder, \<open>Combined text\<close>
  appends to \<^verbatim>\<open>combined.txt\<close>, and \<open>Pace d\<close> is a call of \<^verbatim>\<open>sleep_polite\<close> that returns after a
  delay of \<open>d\<close> seconds (\<^verbatim>\<open>time.sleep(d)\<close>, which it skips when \<open>d\<close> is 0). The GUI paces with
  \<^verbatim>\<open>page.wait_for_timeout\<close>, a \<open>Wait\<close>.
\<close>

record st =
  trace :: "event list"
  navs :: nat
  draws :: nat

definition st0 :: st where
  "st0 = \<lparr>trace = [], navs = 0, draws = 0\<rparr>"

datatype outcome = Extracted ustr ustr ustr | Failed nat | Crashed

text \<open>
  The outcome of one chapter: \<open>Extracted title text url\<close>, or \<open>Failed attempts\<close> with the
  number of visits made, or \<open>Crashed\<close> when an exception left the loop over the links
  (\<^verbatim>\<open>cli_runner.py\<close> calls \<^verbatim>\<open>sleep_polite\<close> outside its \<^verbatim>\<open>try\<close> block): the run ends there.
\<close>

datatype run_error =
  InvalidTocUrl | TocLoadTimeout | TocLoadFailed | NoLinksFound | UrlParseFailed | SleepOverflow

datatype run_result = DryRun "(nat \<times> ustr) list" | Finished "outcome list"

subsection \<open>Small helpers\<close>

text \<open>Python's \<^verbatim>\<open>x or d\<close> for an optional string: \<^verbatim>\<open>None\<close> and \<^verbatim>\<open>""\<close> are false.\<close>

definition or_else :: "ustr option \<Rightarrow> ustr \<Rightarrow> ustr" where
  "or_else x d = (case x of None \<Rightarrow> d | Some v \<Rightarrow> if v = [] then d else v)"

text \<open>\<^verbatim>\<open>f"{i}"\<close> and \<^verbatim>\<open>f"{i:03d}"\<close> for a natural number.\<close>

fun decimal :: "nat \<Rightarrow> ustr" where
  "decimal n = (if n < 10 then [48 + n] else decimal (n div 10) @ [48 + n mod 10])"

definition fmt03 :: "nat \<Rightarrow> ustr" where
  "fmt03 i = replicate (3 - length (decimal i)) 48 @ decimal i"

text \<open>
  \<^verbatim>\<open>int(x)\<close> for a float: truncation towards zero; \<^verbatim>\<open>int\<close> raises on an infinity and on NaN
  (\<open>None\<close>).
\<close>

definition py_int :: "real \<Rightarrow> int" where
  "py_int x = (if 0 \<le> x then \<lfloor>x\<rfloor> else \<lceil>x\<rceil>)"

definition float_to_int :: "pyfloat \<Rightarrow> int option" where
  "float_to_int d = (case d of Num x \<Rightarrow> Some (py_int x) | _ \<Rightarrow> None)"

text \<open>\<^verbatim>\<open>delay * 1000\<close> for a float \<^verbatim>\<open>delay\<close>: the product, rounded.\<close>

definition times1000 :: "pylib \<Rightarrow> pyfloat \<Rightarrow> pyfloat" where
  "times1000 L d = (case d of Num x \<Rightarrow> nearest_float L (x * 1000) | _ \<Rightarrow> d)"

text \<open>\<^verbatim>\<open>int(delay * 1000)\<close>, the milliseconds the GUI waits for a delay in seconds.\<close>

definition ms_of :: "pylib \<Rightarrow> pyfloat \<Rightarrow> int option" where
  "ms_of L d = float_to_int (times1000 L d)"

text \<open>\<^verbatim>\<open>xs[:n]\<close> for an integer \<open>n\<close>: a negative \<open>n\<close> counts from the end.\<close>

definition py_slice_to :: "int \<Rightarrow> 'a list \<Rightarrow> 'a list" where
  "py_slice_to n xs = (if 0 \<le> n then take (nat n) xs else take (length xs - nat (- n)) xs)"

text \<open>\<^verbatim>\<open>enumerate(xs, 1)\<close>.\<close>

definition enumerate1 :: "'a list \<Rightarrow> (nat \<times> 'a) list" where
  "enumerate1 xs = zip [1..<Suc (length xs)] xs"

subsection \<open>Link collection, shared by both programs\<close>

text \<open>\<^verbatim>\<open>[l for l in links if l]\<close>: \<^verbatim>\<open>null\<close> and empty entries go.\<close>

definition collect_links :: "ustr option list \<Rightarrow> ustr list" where
  "collect_links hrefs = List.map_filter (\<lambda>h. case h of None \<Rightarrow> None
                             | Some l \<Rightarrow> if l = [] then None else Some l) hrefs"

text \<open>\<^verbatim>\<open>f"{urlparse(toc).scheme}://{urlparse(toc).netloc}"\<close>.\<close>

definition base_url :: "pylib \<Rightarrow> ustr \<Rightarrow> ustr option" where
  "base_url L u = (case urlparse L u of None \<Rightarrow> None
                   | Some (scheme, netloc) \<Rightarrow> Some (scheme @ str ''://'' @ netloc))"

text \<open>\<^verbatim>\<open>l if l.startswith("http") else urljoin(base, l)\<close>.\<close>

definition absolute :: "pylib \<Rightarrow> ustr \<Rightarrow> ustr \<Rightarrow> ustr" where
  "absolute L base l = (if startswith l (str ''http'') then l else urljoin L base l)"

subsection \<open>Output format, shared by both programs\<close>

definition chapter_file_name :: "nat \<Rightarrow> ustr \<Rightarrow> ustr" where
  "chapter_file_name i title = fmt03 i @ str '' - '' @ title @ str ''.txt''"

definition source_block :: "bool \<Rightarrow> ustr \<Rightarrow> ustr" where
  "source_block include_links url =
     (if include_links then str ''Source: '' @ url @ [NL, NL] else [])"

definition file_body :: "ustr \<Rightarrow> bool \<Rightarrow> ustr \<Rightarrow> ustr \<Rightarrow> ustr" where
  "file_body title include_links url text =
     title @ [NL, NL] @ source_block include_links url @ text @ [NL]"

definition combined_block :: "ustr \<Rightarrow> bool \<Rightarrow> ustr \<Rightarrow> ustr \<Rightarrow> ustr" where
  "combined_block title include_links url text =
     title @ [NL, NL] @ source_block include_links url @ text @ [NL, NL]
       @ replicate 80 45 @ [NL, NL]"

definition save_events :: "nat \<Rightarrow> ustr \<Rightarrow> bool \<Rightarrow> ustr \<Rightarrow> ustr \<Rightarrow> event list" where
  "save_events i title include_links url text =
     [WriteFile (chapter_file_name i title) (file_body title include_links url text),
      Combined (combined_block title include_links url text)]"

subsection \<open>\<^verbatim>\<open>cli_runner.py\<close>\<close>

record args =
  toc :: ustr
  max_chapters :: int
  include_links :: bool
  no_strip_ads :: bool
  dry_run :: bool
  min_delay :: pyfloat
  max_delay :: pyfloat
  retries :: int
  wait_after_load :: int

text \<open>
  The fields are the options \<^verbatim>\<open>--toc\<close>, \<^verbatim>\<open>--max\<close>, \<^verbatim>\<open>--include-links\<close>, \<^verbatim>\<open>--no-strip-ads\<close>,
  \<^verbatim>\<open>--dry-run\<close>, \<^verbatim>\<open>--min-delay\<close>, \<^verbatim>\<open>--max-delay\<close>, \<^verbatim>\<open>--retries\<close> and \<^verbatim>\<open>--wait-after-load\<close>. The
  selectors are behind the answers of the world; the debug artifacts and the browser
  options (user agent, storage state, headful, timeout) are left out.
\<close>

definition is_valid_url :: "pylib \<Rightarrow> ustr \<Rightarrow> bool" where
  "is_valid_url L u =
     (case urlparse L u of
        None \<Rightarrow> False
      | Some (scheme, netloc) \<Rightarrow>
          (scheme = str ''http'' \<or> scheme = str ''https'') \<and> netloc \<noteq> [])"

text \<open>\<^verbatim>\<open>min_d = max(0.0, args.min_delay)\<close> and \<^verbatim>\<open>max_d = max(min_d, args.max_delay)\<close>.\<close>

definition min_d :: "args \<Rightarrow> pyfloat" where
  "min_d a = pymax (Num 0) (min_delay a)"

definition max_d :: "args \<Rightarrow> pyfloat" where
  "max_d a = pymax (min_d a) (max_delay a)"

text \<open>
  \<^verbatim>\<open>sleep_polite(min_s, max_s)\<close>, as a step of the run: \<open>None\<close> when \<^verbatim>\<open>time.sleep\<close> raises. The
  delay is \<^verbatim>\<open>max(0.0, random.uniform(min_s, max_s))\<close>; a delay of 0 is not slept
  (\<^verbatim>\<open>if delay:\<close>), and \<^verbatim>\<open>time.sleep\<close> refuses an infinite delay and one above \<open>sleep_max\<close>.
\<close>

definition sleep_polite :: "pylib \<Rightarrow> world \<Rightarrow> pyfloat \<Rightarrow> pyfloat \<Rightarrow> st \<Rightarrow> st option" where
  "sleep_polite L w min_s max_s s =
     (case pymax (Num 0) (uniform w (draws s) min_s max_s) of
        Num d \<Rightarrow>
          if d = 0 \<or> (0 < d \<and> d \<le> sleep_max L)
          then Some (s\<lparr>trace := trace s @ [Pace d], draws := draws s + 1\<rparr>)
          else None
      | _ \<Rightarrow> None)"

text \<open>
  The \<^verbatim>\<open>while True\<close> loop of \<^verbatim>\<open>main\<close> for the link \<open>(i, url)\<close>, entered with the attempt
  counter \<open>attempt0\<close>. The pause before a retry stands in the loop after the \<^verbatim>\<open>try\<close>
  statement, so what \<^verbatim>\<open>time.sleep\<close> raises there is not caught.
\<close>

function cli_chapter ::
  "pylib \<Rightarrow> world \<Rightarrow> args \<Rightarrow> nat \<Rightarrow> ustr \<Rightarrow> nat \<Rightarrow> st \<Rightarrow> outcome \<times> st" where
  "cli_chapter L w a i url attempt0 s0 =
     (let attempt = attempt0 + 1;
          s1 = s0\<lparr>trace := trace s0 @ [Goto url], navs := navs s0 + 1\<rparr>
      in case visit_at w (navs s0) url of
           Page t b \<Rightarrow>
             (let s2 = (if wait_after_load a \<noteq> 0
                        then s1\<lparr>trace := trace s1 @ [Wait (wait_after_load a)]\<rparr> else s1);
                  title = safe_filename_cli (or_else t (str ''chapter_'' @ decimal i));
                  body = or_else b [];
                  text = clean_text (alnum L) body (\<not> include_links a) (\<not> no_strip_ads a)
              in (Extracted title text url,
                  s2\<lparr>trace := trace s2 @ save_events i title (include_links a) url text\<rparr>))
         | _ \<Rightarrow>
             (if int attempt \<le> retries a
              then (case sleep_polite L w (min_d a) (max_d a) s1 of
                      None \<Rightarrow> (Crashed, s1)
                    | Some s2 \<Rightarrow> cli_chapter L w a i url attempt s2)
              else (Failed attempt, s1)))"
  by pat_completeness auto
termination
  by (relation "measure (\<lambda>(L, w, a, i, url, attempt0, s0). nat (retries a + 1 - int attempt0))")
    auto

text \<open>
  The \<^verbatim>\<open>for i, url in enumerate(links, 1)\<close> loop of \<^verbatim>\<open>main\<close>, with the pacing step after the
  retry loop. The list of outcomes ends with \<open>Crashed\<close> when \<^verbatim>\<open>time.sleep\<close> raised.
\<close>

fun cli_chapters ::
  "pylib \<Rightarrow> world \<Rightarrow> args \<Rightarrow> (nat \<times> ustr) list \<Rightarrow> st \<Rightarrow> outcome list \<times> st" where
  "cli_chapters L w a [] s = ([], s)"
| "cli_chapters L w a ((i, url) # rest) s =
     (let (r, s1) = cli_chapter L w a i url 0 s
      in if r = Crashed then ([Crashed], s1)
         else (case sleep_polite L w (min_d a) (max_d a) s1 of
                 None \<Rightarrow> ([r, Crashed], s1)
               | Some s2 \<Rightarrow>
                   (let (rs, s3) = cli_chapters L w a rest s2
                    in (r # rs, s3))))"

text \<open>\<^verbatim>\<open>main\<close>: the events of the run, and how it ends.\<close>

definition cli_main :: "pylib \<Rightarrow> world \<Rightarrow> args \<Rightarrow> event list \<times> (run_error + run_result)" where
  "cli_main L w a =
     (if \<not> is_valid_url L (toc a) then ([], Inl InvalidTocUrl)
      else case toc_page w of
        LoadTimeout \<Rightarrow> ([Goto (toc a)], Inl TocLoadTimeout)
      | LoadFailure \<Rightarrow> ([Goto (toc a)], Inl TocLoadFailed)
      | Loaded hrefs \<Rightarrow>
          (let tr = Goto (toc a)
                    # (if wait_after_load a \<noteq> 0 then [Wait (wait_after_load a)] else []);
               links = collect_links hrefs
           in if links = [] then (tr, Inl NoLinksFound)
              else case base_url L (toc a) of
                None \<Rightarrow> (tr, Inl UrlParseFailed)
              | Some base \<Rightarrow>
                  (let links1 = map (absolute L base) links;
                       links2 = take (nat (max 1 (max_chapters a))) links1
                   in if dry_run a then (tr, Inr (DryRun (enumerate1 links2)))
                      else (let (rs, s) = cli_chapters L w a (enumerate1 links2)
                                             (st0\<lparr>trace := tr\<rparr>)
                            in if Crashed \<in> set rs then (trace s, Inl SleepOverflow)
                               else (trace s, Inr (Finished rs))))))"

subsection \<open>\<^verbatim>\<open>toc_playwright.py\<close>\<close>

record gui =
  toc_url_var :: ustr
  max_count_var :: int
  include_links_var :: bool
  strip_ads_var :: bool
  min_delay_var :: pyfloat
  max_delay_var :: pyfloat

text \<open>
  \<^verbatim>\<open>_validate_basic_inputs(launch_only=True)\<close>, the check \<^verbatim>\<open>launch_browser\<close> makes before it
  opens the TOC page (creating the output folder is taken to succeed).
\<close>

definition validate_basic_inputs :: "gui \<Rightarrow> bool" where
  "validate_basic_inputs g =
     (let toc = strip (toc_url_var g)
      in if toc = [] \<or> \<not> startswith toc (str ''http'') then False else True)"

text \<open>\<^verbatim>\<open>launch_browser\<close>: the events up to the loaded TOC page.\<close>

definition launch_browser :: "world \<Rightarrow> gui \<Rightarrow> event list \<times> (run_error + unit)" where
  "launch_browser w g =
     (if \<not> validate_basic_inputs g then ([], Inl InvalidTocUrl)
      else case toc_page w of
        LoadTimeout \<Rightarrow> ([Goto (strip (toc_url_var g))], Inl TocLoadTimeout)
      | LoadFailure \<Rightarrow> ([Goto (strip (toc_url_var g))], Inl TocLoadFailed)
      | Loaded hrefs \<Rightarrow> ([Goto (strip (toc_url_var g))], Inr ()))"

text \<open>
  The body of the \<^verbatim>\<open>for idx, url in enumerate(links, start=1)\<close> loop after the stop check;
  \<open>incl\<close>, \<open>ads\<close>, \<open>dmin\<close> and \<open>dmax\<close> are the locals \<^verbatim>\<open>include_links\<close>, \<^verbatim>\<open>strip_ads\<close>, \<^verbatim>\<open>min_d\<close> and
  \<^verbatim>\<open>max_d\<close>. The pacing step stands at the end of the \<^verbatim>\<open>try\<close> block, after the chapter is
  saved: it waits \<^verbatim>\<open>int(delay * 1000)\<close> milliseconds, and when \<^verbatim>\<open>int\<close> raises (the delay is
  infinite or NaN) the handler logs the error and the loop goes on without the wait.
\<close>

definition gui_chapter ::
  "pylib \<Rightarrow> world \<Rightarrow> bool \<Rightarrow> bool \<Rightarrow> pyfloat \<Rightarrow> pyfloat \<Rightarrow> nat \<Rightarrow> ustr \<Rightarrow> st
     \<Rightarrow> outcome \<times> st" where
  "gui_chapter L w incl ads dmin dmax idx url s0 =
     (let s1 = s0\<lparr>trace := trace s0 @ [Goto url], navs := navs s0 + 1\<rparr>
      in case visit_at w (navs s0) url of
           Page title0 body \<Rightarrow>
             (let s2 = s1\<lparr>trace := trace s1 @ [Wait 500]\<rparr>
              in if or_else body [] = [] then (Failed 1, s2)
                 else
                   (let title = safe_filename_gui (or_else title0 (str ''chapter_'' @ decimal idx));
                        cleaned = clean_text (alnum L) (or_else body []) (\<not> incl) ads;
                        s3 = s2\<lparr>trace := trace s2 @ save_events idx title incl url cleaned,
                                draws := draws s2 + 1\<rparr>
                    in case ms_of L (uniform w (draws s2) dmin dmax) of
                         None \<Rightarrow> (Extracted title cleaned url, s3)
                       | Some ms \<Rightarrow>
                           (Extracted title cleaned url, s3\<lparr>trace := trace s3 @ [Wait ms]\<rparr>)))
         | _ \<Rightarrow> (Failed 1, s1))"

fun gui_chapters ::
  "pylib \<Rightarrow> world \<Rightarrow> bool \<Rightarrow> bool \<Rightarrow> pyfloat \<Rightarrow> pyfloat \<Rightarrow> (nat \<times> ustr) list \<Rightarrow> st
     \<Rightarrow> outcome list \<times> st" where
  "gui_chapters L w incl ads dmin dmax [] s = ([], s)"
| "gui_chapters L w incl ads dmin dmax ((idx, url) # rest) s =
     (if \<not> is_running w idx then ([], s)
      else (let (r, s1) = gui_chapter L w incl ads dmin dmax idx url s;
                (rs, s2) = gui_chapters L w incl ads dmin dmax rest s1
            in (r # rs, s2)))"

text \<open>
  The clamping of the two delay fields in \<^verbatim>\<open>_run_extraction\<close>: \<^verbatim>\<open>if min_d < 0: min_d = 0\<close> and
  \<^verbatim>\<open>if max_d < min_d: max_d = min_d\<close>.
\<close>

definition gui_min_d :: "gui \<Rightarrow> pyfloat" where
  "gui_min_d g = (if flt (min_delay_var g) (Num 0) then Num 0 else min_delay_var g)"

definition gui_max_d :: "gui \<Rightarrow> pyfloat" where
  "gui_max_d g = (if flt (max_delay_var g) (gui_min_d g) then gui_min_d g else max_delay_var g)"

text \<open>
  \<^verbatim>\<open>_run_extraction\<close>, from the collection of the links on (the user has signalled
  readiness, and the TOC page is the one \<^verbatim>\<open>launch_browser\<close> loaded).
\<close>

definition run_extraction :: "pylib \<Rightarrow> world \<Rightarrow> gui \<Rightarrow> event list \<times> (run_error + run_result)" where
  "run_extraction L w g =
     (case toc_page w of
        LoadTimeout \<Rightarrow> ([], Inl TocLoadTimeout)
      | LoadFailure \<Rightarrow> ([], Inl TocLoadFailed)
      | Loaded hrefs \<Rightarrow>
          (let links = collect_links hrefs
           in if links = [] then ([], Inl NoLinksFound)
              else case base_url L (strip (toc_url_var g)) of
                None \<Rightarrow> ([], Inl UrlParseFailed)
              | Some base \<Rightarrow>
                  (let links1 = map (absolute L base) links;
                       max_count = (if max_count_var g = 0 then 20 else max_count_var g);
                       links2 = py_slice_to max_count links1;
                       (rs, s) = gui_chapters L w (include_links_var g) (strip_ads_var g)
                                   (gui_min_d g) (gui_max_d g) (enumerate1 links2) st0
                   in (trace s, Inr (Finished rs)))))"

section \<open>Predicates on text, for the statements about \<^verbatim>\<open>clean_text\<close>\<close>

text \<open>No white space character stands immediately before a newline.\<close>

fun ws_nl_free :: "ustr \<Rightarrow> bool" where
  "ws_nl_free (a # b # r) = (\<not> (isspace a \<and> b = NL) \<and> ws_nl_free (b # r))"
| "ws_nl_free _ = True"

text \<open>No white space character stands immediately after a newline.\<close>

fun nl_ws_free :: "ustr \<Rightarrow> bool" where
  "nl_ws_free (a # b # r) = (\<not> (a = NL \<and> isspace b) \<and> nl_ws_free (b # r))"
| "nl_ws_free _ = True"

text \<open>
  The text starts with \<^verbatim>\<open>http://\<close> or \<^verbatim>\<open>https://\<close> and one more character that is not white
  space: where \<^verbatim>\<open>https?://\S+\<close> matches.
\<close>

definition url_start :: "ustr \<Rightarrow> bool" where
  "url_start s = (\<exists>x r. nonspace x \<and> (s = str ''http://'' @ x # r \<or> s = str ''https://'' @ x # r))"

text \<open>The pattern \<^verbatim>\<open>https?://\S+\<close> matches nowhere in the text.\<close>

primrec url_free :: "ustr \<Rightarrow> bool" where
  "url_free [] = True"
| "url_free (c # cs) = (rmatch url_pat (c # cs) = None \<and> url_free cs)"

text \<open>The three white space substitutions of \<^verbatim>\<open>clean_text\<close>, by name.\<close>

abbreviation squeeze_before :: "ustr \<Rightarrow> ustr" where
  "squeeze_before \<equiv> re_sub [many1 isspace, lit NL] [NL]"

abbreviation squeeze_after :: "ustr \<Rightarrow> ustr" where
  "squeeze_after \<equiv> re_sub [lit NL, many1 isspace] [NL]"

abbreviation squeeze_blank :: "ustr \<Rightarrow> ustr" where
  "squeeze_blank \<equiv> re_sub [atleast 3 (\<lambda>c. c = NL)] [NL, NL]"

text \<open>The substitution that removes the links.\<close>

abbreviation strip_urls :: "ustr \<Rightarrow> ustr" where
  "strip_urls \<equiv> re_sub url_pat []"

section \<open>Predicates and sample inputs, for the statements about the pipeline\<close>

text \<open>A visit that raises inside the \<^verbatim>\<open>try\<close> block.\<close>

definition raises :: "visit \<Rightarrow> bool" where
  "raises v = (case v of Page t b \<Rightarrow> False | _ \<Rightarrow> True)"

text \<open>The events that save a chapter, and the pacing events.\<close>

definition saves :: "event \<Rightarrow> bool" where
  "saves e = (case e of WriteFile n t \<Rightarrow> True | Combined t \<Rightarrow> True | _ \<Rightarrow> False)"

definition paces :: "event \<Rightarrow> bool" where
  "paces e = (case e of Pace d \<Rightarrow> True | _ \<Rightarrow> False)"

text \<open>
  Sample inputs. \<open>lib0\<close> stands for the library on a site \<^verbatim>\<open>https://ex.test\<close>: every URL has
  that origin, and joining a relative reference to the origin appends it after one \<^verbatim>\<open>/\<close>.
  It rounds nothing, which is right where the exact result is a double, as in the runs
  below; its \<open>sleep_max\<close> is about CPython's. \<open>world0 pg v\<close> answers the TOC load with \<open>pg\<close>
  and every chapter visit with \<open>v\<close>; its \<^verbatim>\<open>random.uniform(a, b)\<close> returns \<open>a\<close>, the value for finite
  bounds when \<^verbatim>\<open>random()\<close> is 0, and for equal finite bounds always. \<open>args0\<close> and \<open>gui0\<close> hold
  the defaults of the two programs.
\<close>

definition lib0 :: pylib where
  "lib0 = \<lparr>alnum = ascii_alnum,
           urlparse = (\<lambda>u. Some (str ''https'', str ''ex.test'')),
           urljoin = (\<lambda>b l. if startswith l (str ''/'') then b @ l else b @ str ''/'' @ l),
           nearest_float = Num,
           sleep_max = 9223372036\<rparr>"

definition world0 :: "toc_load \<Rightarrow> visit \<Rightarrow> world" where
  "world0 pg v = \<lparr>toc_page = pg, visit_at = (\<lambda>n u. v), uniform = (\<lambda>n a b. a),
                  is_running = (\<lambda>i. True)\<rparr>"

definition args0 :: args where
  "args0 = \<lparr>toc = str ''https://ex.test/toc'', max_chapters = 20, include_links = False,
            no_strip_ads = False, dry_run = False, min_delay = Num (12 / 10),
            max_delay = Num (25 / 10), retries = 2, wait_after_load = 500\<rparr>"

definition gui0 :: gui where
  "gui0 = \<lparr>toc_url_var = str ''https://ex.test/toc'', max_count_var = 20,
           include_links_var = False, strip_ads_var = True,
           min_delay_var = Num (12 / 10), max_delay_var = Num (25 / 10)\<rparr>"

text \<open>Every delay \<^verbatim>\<open>sleep_polite\<close> slept in a trace lies between two bounds.\<close>

definition paced_within :: "real \<Rightarrow> real \<Rightarrow> event list \<Rightarrow> bool" where
  "paced_within lo_d hi_d tr = (\<forall>d. Pace d \<in> set tr \<longrightarrow> lo_d \<le> d \<and> d \<le> hi_d)"

text \<open>
  Every wait of a trace of the GUI is the settle wait of 500 ms or lies between two
  bounds, in milliseconds.
\<close>

definition waits_within :: "int \<Rightarrow> int \<Rightarrow> event list \<Rightarrow> bool" where
  "waits_within lo_ms hi_ms tr =
     (\<forall>ms. Wait ms \<in> set tr \<longrightarrow> ms = 500 \<or> (lo_ms \<le> ms \<and> ms \<le> hi_ms))"

text \<open>
  What the statements about delays take from the library. \<^verbatim>\<open>random.uniform(a, b)\<close> returns,
  for finite \<^verbatim>\<open>a <= b\<close>, a number \<open>N\<close> with \<^verbatim>\<open>a <= N <= b\<close> (its documentation). Between two
  bounds, \<^verbatim>\<open>int(d * 1000)\<close> is defined and keeps the order: the rounded product and the
  truncation are both monotone.
\<close>

definition uniform_in_range :: "world \<Rightarrow> bool" where
  "uniform_in_range w =
     (\<forall>k x y. x \<le> y \<longrightarrow> (\<exists>d. uniform w k (Num x) (Num y) = Num d \<and> x \<le> d \<and> d \<le> y))"

definition ms_in_order :: "pylib \<Rightarrow> real \<Rightarrow> real \<Rightarrow> bool" where
  "ms_in_order L lo_d hi_d =
     (\<forall>u v. lo_d \<le> u \<and> u \<le> v \<and> v \<le> hi_d \<longrightarrow>
        (\<exists>m n. ms_of L (Num u) = Some m \<and> ms_of L (Num v) = Some n \<and> m \<le> n))"


section \<open>Facts about the matcher\<close>

lemma tries_NoneD:
  "tries g s l k = None \<Longrightarrow> l \<le> j \<Longrightarrow> j \<le> k \<Longrightarrow> g (drop j s) = None"
proof (induction k)
  case 0
  then show ?case by (simp split: if_splits)
next
  case (Suc k)
  have nl: "\<not> Suc k < l" using Suc.prems by arith
  show ?case
  proof (cases "g (drop (Suc k) s)")
    case None
    have t: "tries g s l k = None" using Suc.prems(1) nl None by simp
    show ?thesis
    proof (cases "j = Suc k")
      case True
      then show ?thesis using None by simp
    next
      case False
      then have "j \<le> k" using Suc.prems(3) by arith
      then show ?thesis using Suc.IH[OF t Suc.prems(2)] by simp
    qed
  next
    case (Some n)
    then have False using Suc.prems(1) nl by simp
    then show ?thesis by simp
  qed
qed

lemma tries_NoneI:
  "(\<And>j. l \<le> j \<Longrightarrow> j \<le> k \<Longrightarrow> g (drop j s) = None) \<Longrightarrow> tries g s l k = None"
proof (induction k)
  case 0
  show ?case
  proof (cases "l = 0")
    case True
    have "g (drop 0 s) = None" by (rule 0) (simp_all add: True)
    then show ?thesis using True by simp
  next
    case False
    then show ?thesis by simp
  qed
next
  case (Suc k)
  show ?case
  proof (cases "Suc k < l")
    case True
    then show ?thesis by simp
  next
    case False
    have a: "g (drop (Suc k) s) = None" by (rule Suc.prems) (use False in simp_all)
    have "tries g s l k = None"
    proof (rule Suc.IH)
      fix j assume "l \<le> j" "j \<le> k"
      then show "g (drop j s) = None" using Suc.prems[of j] by simp
    qed
    then show ?thesis using False a by simp
  qed
qed

lemma tries_top:
  "l \<le> k \<Longrightarrow> g (drop k s) = Some n \<Longrightarrow> tries g s l k = Some (k + n)"
  by (cases k) auto

lemma tries_step:
  "g (drop (Suc k) s) = None \<Longrightarrow> tries g s l (Suc k) = tries g s l k"
proof (cases "Suc k < l")
  case True
  have "tries g s l k = None"
  proof (rule tries_NoneI)
    fix j assume "l \<le> j" "j \<le> k"
    then have False using True by arith
    then show "g (drop j s) = None" by simp
  qed
  then show ?thesis using True by simp
next
  case False
  assume "g (drop (Suc k) s) = None"
  then show ?thesis using False by simp
qed

lemma rmatch_once:
  "rmatch (once p # its) s =
     (case s of [] \<Rightarrow> None
      | c # cs \<Rightarrow> if p c then map_option Suc (rmatch its cs) else None)"
proof (cases s)
  case Nil
  then show ?thesis by (simp add: once_def reach_def)
next
  case (Cons c cs)
  show ?thesis
  proof (cases "p c")
    case True
    then have "reach (once p) s = Suc 0" using Cons by (simp add: once_def reach_def)
    then show ?thesis using Cons True by (simp add: once_def split: option.splits)
  next
    case False
    then have "reach (once p) s = 0" using Cons by (simp add: once_def reach_def)
    then show ?thesis using Cons False by (simp add: once_def)
  qed
qed

lemma rmatch_lit:
  "rmatch (lit a # its) s =
     (case s of [] \<Rightarrow> None
      | c # cs \<Rightarrow> if c = a then map_option Suc (rmatch its cs) else None)"
  unfolding lit_def by (rule rmatch_once)

lemma rmatch_maybe:
  "rmatch (maybe p # its) s =
     (case s of [] \<Rightarrow> rmatch its []
      | c # cs \<Rightarrow>
          if p c then (case rmatch its cs of Some n \<Rightarrow> Some (Suc n) | None \<Rightarrow> rmatch its (c # cs))
          else rmatch its (c # cs))"
proof (cases s)
  case Nil
  then show ?thesis by (simp add: maybe_def reach_def)
next
  case (Cons c cs)
  show ?thesis
  proof (cases "p c")
    case True
    then have "reach (maybe p) s = Suc 0" using Cons by (simp add: maybe_def reach_def)
    then show ?thesis using Cons True by (simp add: maybe_def split: option.splits)
  next
    case False
    then have "reach (maybe p) s = 0" using Cons by (simp add: maybe_def reach_def)
    then show ?thesis using Cons False by (simp add: maybe_def)
  qed
qed

lemma rmatch_many1_last:
  "rmatch [many1 p] s =
     (if takeWhile p s = [] then None else Some (length (takeWhile p s)))"
proof (cases "length (takeWhile p s)")
  case 0
  then show ?thesis by (simp add: many1_def reach_def)
next
  case (Suc k)
  then have "takeWhile p s \<noteq> []" by auto
  then show ?thesis using Suc by (simp add: many1_def reach_def)
qed

lemma rmatch_atleast_last:
  "rmatch [atleast n p] s =
     (if length (takeWhile p s) < n then None else Some (length (takeWhile p s)))"
proof (cases "length (takeWhile p s)")
  case 0
  then show ?thesis by (simp add: atleast_def reach_def)
next
  case (Suc k)
  then show ?thesis by (simp add: atleast_def reach_def)
qed

declare rmatch.simps(2) [simp del]

section \<open>Facts about \<^verbatim>\<open>re.sub\<close>\<close>

lemma re_sub_skip:
  "rmatch pat (c # cs) = None \<Longrightarrow> re_sub pat rep (c # cs) = c # re_sub pat rep cs"
  by simp

lemma re_sub_hit:
  "rmatch pat (c # cs) = Some (Suc k) \<Longrightarrow>
     re_sub pat rep (c # cs) = rep @ re_sub pat rep (drop k cs)"
  by simp

text \<open>Induction along the scan of \<open>re_sub\<close>, for a fixed pattern.\<close>

lemma re_sub_scan_induct [consumes 0, case_names Nil Skip Hit]:
  assumes "P []"
    and "\<And>c cs. rmatch pat (c # cs) = None \<or> rmatch pat (c # cs) = Some 0 \<Longrightarrow> P cs \<Longrightarrow> P (c # cs)"
    and "\<And>c cs k. rmatch pat (c # cs) = Some (Suc k) \<Longrightarrow> P (drop k cs) \<Longrightarrow> P (c # cs)"
  shows "P s"
proof (induction s rule: length_induct)
  case (1 s)
  show ?case
  proof (cases s)
    case Nil
    then show ?thesis using assms(1) by simp
  next
    case (Cons c cs)
    have small: "P cs" using 1 Cons by simp
    show ?thesis
    proof (cases "rmatch pat (c # cs)")
      case None
      then show ?thesis using assms(2) small Cons by simp
    next
      case (Some m)
      show ?thesis
      proof (cases m)
        case 0
        then show ?thesis using assms(2) small Cons Some by simp
      next
        case (Suc k)
        have "length (drop k cs) < length s" using Cons by simp
        then have "P (drop k cs)" using 1 by blast
        then show ?thesis using assms(3) Some Suc Cons by simp
      qed
    qed
  qed
qed

lemma re_sub_set: "set (re_sub pat rep s) \<subseteq> set s \<union> set rep"
proof (induction s rule: re_sub_scan_induct[where pat = pat])
  case Nil
  then show ?case by simp
next
  case (Skip c cs)
  then show ?case by auto
next
  case (Hit c cs k)
  have "set (drop k cs) \<subseteq> set cs" by (rule set_drop_subset)
  then show ?case using Hit by auto
qed

lemma re_sub_nonempty: "s \<noteq> [] \<Longrightarrow> rep \<noteq> [] \<Longrightarrow> re_sub pat rep s \<noteq> []"
  by (cases s) (auto split: option.splits nat.splits)

text \<open>A class the pattern always matches at is gone after the substitution.\<close>

lemma re_sub_removes:
  assumes "\<And>c cs. p c \<Longrightarrow> \<exists>k. rmatch pat (c # cs) = Some (Suc k)"
  shows "x \<in> set (re_sub pat rep s) \<Longrightarrow> p x \<Longrightarrow> x \<in> set rep"
proof (induction s rule: re_sub_scan_induct[where pat = pat])
  case Nil
  then show ?case by simp
next
  case (Skip c cs)
  have "\<not> p c" using assms[of c cs] Skip(1) by auto
  then show ?case using Skip by auto
next
  case (Hit c cs k)
  then show ?case by auto
qed

lemma reserved_hit_many1: "reserved c \<Longrightarrow> \<exists>k. rmatch [many1 reserved] (c # cs) = Some (Suc k)"
  by (simp add: rmatch_many1_last)

lemma reserved_hit_once: "reserved c \<Longrightarrow> \<exists>k. rmatch [once reserved] (c # cs) = Some (Suc k)"
  by (simp add: rmatch_once)

lemma str_underscore: "str ''_'' = [95]"
  by (simp add: str_def)

lemma str_space: "str '' '' = [32]"
  by (simp add: str_def)

lemma str_untitled: "str ''untitled'' = [117, 110, 116, 105, 116, 108, 101, 100]"
  by (simp add: str_def)

lemma not_reserved_95: "\<not> reserved 95"
  by (simp add: reserved_def)

lemma not_reserved_32: "\<not> reserved 32"
  by (simp add: reserved_def)

lemma no_reserved_after_many1: "x \<in> set (re_sub [many1 reserved] (str ''_'') s) \<Longrightarrow> \<not> reserved x"
  using re_sub_removes[of reserved "[many1 reserved]" x "str ''_''" s] reserved_hit_many1
  by (auto simp: str_underscore not_reserved_95)

lemma no_reserved_after_once: "x \<in> set (re_sub [once reserved] (str ''_'') s) \<Longrightarrow> \<not> reserved x"
  using re_sub_removes[of reserved "[once reserved]" x "str ''_''" s] reserved_hit_once
  by (auto simp: str_underscore not_reserved_95)

lemma no_reserved_spaces:
  assumes "\<And>x. x \<in> set s \<Longrightarrow> \<not> reserved x"
  shows "x \<in> set (re_sub [many1 isspace] (str '' '') s) \<Longrightarrow> \<not> reserved x"
  using re_sub_set[of "[many1 isspace]" "str '' ''" s] assms
  by (auto simp: str_space not_reserved_32)

lemma no_reserved_untitled: "x \<in> set (str ''untitled'') \<Longrightarrow> \<not> reserved x"
  by (auto simp: str_untitled reserved_def)

declare decimal.simps [simp del]

declare cli_chapter.simps [simp del]

lemma take_nonempty: "xs \<noteq> [] \<Longrightarrow> 0 < n \<Longrightarrow> take n xs \<noteq> []"
  by (cases xs; cases n) auto

lemma safe_filename_cli_chars: "x \<in> set (safe_filename_cli t) \<Longrightarrow> \<not> reserved x"
proof -
  assume x: "x \<in> set (safe_filename_cli t)"
  define n1 where "n1 = strip (re_sub [once tab_nl_cr] (str '' '') t)"
  define n2 where "n2 = re_sub [many1 reserved] (str ''_'') n1"
  define n3 where "n3 = re_sub [many1 isspace] (str '' '') n2"
  have r: "safe_filename_cli t = take 150 (if n3 = [] then str ''untitled'' else n3)"
    by (simp add: safe_filename_cli_def n1_def n2_def n3_def)
  have n2ok: "\<And>y. y \<in> set n2 \<Longrightarrow> \<not> reserved y"
    unfolding n2_def by (rule no_reserved_after_many1)
  have n3ok: "\<And>y. y \<in> set n3 \<Longrightarrow> \<not> reserved y"
    unfolding n3_def using n2ok by (rule no_reserved_spaces)
  have "x \<in> set (if n3 = [] then str ''untitled'' else n3)"
    using x r by (metis in_set_takeD)
  then show ?thesis using n3ok no_reserved_untitled by (auto split: if_splits)
qed

lemma safe_filename_gui_chars: "x \<in> set (safe_filename_gui t) \<Longrightarrow> \<not> reserved x"
proof -
  assume x: "x \<in> set (safe_filename_gui t)"
  define n1 where "n1 = strip (re_sub [once tab_nl_cr] (str '' '') t)"
  define n2 where "n2 = re_sub [once reserved] (str ''_'') n1"
  define n3 where "n3 = re_sub [many1 isspace] (str '' '') n2"
  have r: "safe_filename_gui t = (if n3 = [] then str ''untitled'' else take 150 n3)"
    by (simp add: safe_filename_gui_def n1_def n2_def n3_def)
  have n2ok: "\<And>y. y \<in> set n2 \<Longrightarrow> \<not> reserved y"
    unfolding n2_def by (rule no_reserved_after_once)
  have n3ok: "\<And>y. y \<in> set n3 \<Longrightarrow> \<not> reserved y"
    unfolding n3_def using n2ok by (rule no_reserved_spaces)
  show ?thesis
  proof (cases "n3 = []")
    case True
    then show ?thesis using x r no_reserved_untitled by simp
  next
    case False
    then have "x \<in> set n3" using x r by (auto dest: in_set_takeD)
    then show ?thesis using n3ok by simp
  qed
qed

lemma safe_filename_cli_length: "length (safe_filename_cli t) \<le> 150"
  by (simp add: safe_filename_cli_def Let_def)

lemma safe_filename_gui_length: "length (safe_filename_gui t) \<le> 150"
  by (simp add: safe_filename_gui_def Let_def str_untitled)

lemma safe_filename_cli_nonempty: "safe_filename_cli t \<noteq> []"
  by (simp add: safe_filename_cli_def Let_def str_untitled take_nonempty)

lemma safe_filename_gui_nonempty: "safe_filename_gui t \<noteq> []"
  by (simp add: safe_filename_gui_def Let_def str_untitled take_nonempty)

lemma dropWhile_all: "(\<And>x. x \<in> set xs \<Longrightarrow> p x) \<Longrightarrow> dropWhile p xs = []"
  by (induction xs) auto

lemma strip_all_space: "(\<And>x. x \<in> set s \<Longrightarrow> isspace x) \<Longrightarrow> strip s = []"
  by (simp add: strip_def dropWhile_all)

lemma isspace_32: "isspace 32"
  by (simp add: isspace_def)

lemma scrub_blank:
  assumes "\<And>x. x \<in> set t \<Longrightarrow> isspace x"
  shows "strip (re_sub [once tab_nl_cr] (str '' '') t) = []"
proof (rule strip_all_space)
  fix x assume "x \<in> set (re_sub [once tab_nl_cr] (str '' '') t)"
  then have "x \<in> set t \<or> x = 32"
    using re_sub_set[of "[once tab_nl_cr]" "str '' ''" t] by (auto simp: str_space)
  then show "isspace x" using assms isspace_32 by auto
qed

lemma safe_filename_cli_blank:
  "(\<And>x. x \<in> set t \<Longrightarrow> isspace x) \<Longrightarrow> safe_filename_cli t = str ''untitled''"
  by (simp add: safe_filename_cli_def scrub_blank str_untitled)

lemma safe_filename_gui_blank:
  "(\<And>x. x \<in> set t \<Longrightarrow> isspace x) \<Longrightarrow> safe_filename_gui t = str ''untitled''"
  by (simp add: safe_filename_gui_def scrub_blank str_untitled)

text \<open>
  C8. For every title, the file name that either \<^verbatim>\<open>safe_filename\<close> returns holds none of the
  reserved characters, is at most 150 characters long and is not empty; a title of white
  space only (one that is empty after the substitutions) gives the literal \<^verbatim>\<open>untitled\<close>.
\<close>

theorem safe_filename_sound:
  "(\<forall>c \<in> set (safe_filename_cli t). \<not> reserved c)
   \<and> length (safe_filename_cli t) \<le> 150
   \<and> safe_filename_cli t \<noteq> []
   \<and> (\<forall>c \<in> set (safe_filename_gui t). \<not> reserved c)
   \<and> length (safe_filename_gui t) \<le> 150
   \<and> safe_filename_gui t \<noteq> []
   \<and> ((\<forall>c \<in> set t. isspace c) \<longrightarrow>
        safe_filename_cli t = str ''untitled'' \<and> safe_filename_gui t = str ''untitled'')"
  using safe_filename_cli_chars[of _ t] safe_filename_gui_chars[of _ t]
    safe_filename_cli_length[of t] safe_filename_gui_length[of t]
    safe_filename_cli_nonempty[of t] safe_filename_gui_nonempty[of t]
    safe_filename_cli_blank[of t] safe_filename_gui_blank[of t]
  by blast

theorem safe_filename_sound_witness:
  "isspace 32
   \<and> safe_filename_cli (str '' '') = str ''untitled''
   \<and> safe_filename_gui (str '' '') = str ''untitled''
   \<and> length (safe_filename_cli (str '' '')) \<le> 150"
  using safe_filename_sound[of "str '' ''"] by (simp add: str_space isspace_32 str_untitled)

lemma re_sub_reserved_keep:
  "\<not> reserved c \<Longrightarrow>
     re_sub [many1 reserved] rep (c # s) = c # re_sub [many1 reserved] rep s"
  by (simp add: rmatch_many1_last)

lemma re_sub_reserved_run:
  assumes "r \<noteq> []" and "\<And>x. x \<in> set r \<Longrightarrow> reserved x" and "b = [] \<or> \<not> reserved (hd b)"
  shows "re_sub [many1 reserved] rep (r @ b) = rep @ re_sub [many1 reserved] rep b"
proof -
  obtain c r' where r: "r = c # r'" using assms(1) by (cases r) auto
  have tw: "takeWhile reserved (r @ b) = r"
    using assms(2,3) by (cases b) (auto simp: takeWhile_append2 takeWhile_eq_all_conv)
  have "rmatch [many1 reserved] (c # r' @ b) = Some (Suc (length r'))"
    using tw r by (simp add: rmatch_many1_last)
  then have "re_sub [many1 reserved] rep (c # r' @ b)
             = rep @ re_sub [many1 reserved] rep (drop (length r') (r' @ b))"
    by (rule re_sub_hit)
  then show ?thesis using r by simp
qed

text \<open>
  C7. A run of two reserved characters: \<^verbatim>\<open>cli_runner.safe_filename\<close> gives one underscore,
  \<^verbatim>\<open>toc_playwright.safe_filename\<close> gives two.
\<close>

theorem safe_filename_gui_run:
  "safe_filename_gui (str ''a//b'') = str ''a__b''
   \<and> safe_filename_cli (str ''a//b'') = str ''a_b''"
  by (simp add: safe_filename_gui_def safe_filename_cli_def str_def strip_def
      rmatch_once rmatch_many1_last tab_nl_cr_def reserved_def isspace_def)

section \<open>Facts about the patterns of \<^verbatim>\<open>clean_text\<close>\<close>

lemma tries_first:
  "l \<le> j \<Longrightarrow> j \<le> k \<Longrightarrow> g (drop j s) = Some n \<Longrightarrow>
     (\<And>i. j < i \<Longrightarrow> i \<le> k \<Longrightarrow> g (drop i s) = None) \<Longrightarrow> tries g s l k = Some (j + n)"
proof (induction k)
  case 0
  then show ?case by simp
next
  case (Suc k)
  show ?case
  proof (cases "j = Suc k")
    case True
    then show ?thesis using Suc.prems(1,3) by (simp add: tries_top)
  next
    case False
    then have jk: "j \<le> k" using Suc.prems(2) by arith
    have "g (drop (Suc k) s) = None" using Suc.prems(4)[of "Suc k"] jk by simp
    then have "tries g s l (Suc k) = tries g s l k" by (rule tries_step)
    moreover have "tries g s l k = Some (j + n)"
    proof (rule Suc.IH[OF Suc.prems(1) jk Suc.prems(3)])
      fix i assume "j < i" "i \<le> k"
      then show "g (drop i s) = None" using Suc.prems(4)[of i] by simp
    qed
    ultimately show ?thesis by simp
  qed
qed

lemma isspace_NL: "isspace NL"
  by (simp add: isspace_def NL_def)

lemma rmatch_nl_only:
  "rmatch [lit NL] s = (case s of [] \<Rightarrow> None | c # cs \<Rightarrow> if c = NL then Some 1 else None)"
  by (simp add: rmatch_lit split: list.splits)

lemma nl_head_None: "t = [] \<or> hd t \<noteq> NL \<Longrightarrow> rmatch [lit NL] t = None"
  by (cases t) (auto simp: rmatch_nl_only)

lemma rmatch_many1:
  "rmatch (many1 p # its) s = tries (rmatch its) s 1 (length (takeWhile p s))"
  by (simp add: rmatch.simps(2) many1_def reach_def)

lemma drop_in_run:
  assumes "j \<le> length (takeWhile p cs)"
  shows "drop j cs = drop j (takeWhile p cs) @ dropWhile p cs"
proof -
  have "drop j (takeWhile p cs @ dropWhile p cs)
        = drop j (takeWhile p cs) @ drop (j - length (takeWhile p cs)) (dropWhile p cs)"
    by (rule drop_append)
  then show ?thesis using assms by simp
qed

lemma run_tail_head:
  assumes "j \<le> length (takeWhile isspace cs)" and "NL \<notin> set (drop j (takeWhile isspace cs))"
  shows "drop j cs = [] \<or> hd (drop j cs) \<noteq> NL"
proof (cases "drop j (takeWhile isspace cs)")
  case Nil
  have "dropWhile isspace cs = [] \<or> hd (dropWhile isspace cs) \<noteq> NL"
  proof (cases "dropWhile isspace cs = []")
    case True
    then show ?thesis by simp
  next
    case False
    then have "\<not> isspace (hd (dropWhile isspace cs))" by (rule hd_dropWhile)
    then have "hd (dropWhile isspace cs) \<noteq> NL" using isspace_NL by auto
    then show ?thesis by simp
  qed
  then show ?thesis using drop_in_run[OF assms(1)] Nil by simp
next
  case (Cons y ys)
  then have "y \<noteq> NL" using assms(2) by auto
  then show ?thesis using drop_in_run[OF assms(1)] Cons by simp
qed

text \<open>The pattern \<^verbatim>\<open>\s+\n\<close>: where it matches, and where it does not.\<close>

lemma ws_nl_miss:
  assumes "\<not> isspace c \<or> NL \<notin> set (takeWhile isspace cs)"
  shows "rmatch [many1 isspace, lit NL] (c # cs) = None"
proof -
  have "tries (rmatch [lit NL]) (c # cs) 1 (length (takeWhile isspace (c # cs))) = None"
  proof (rule tries_NoneI)
    fix j assume j: "1 \<le> j" "j \<le> length (takeWhile isspace (c # cs))"
    then obtain j' where j': "j = Suc j'" by (cases j) auto
    have c: "isspace c" using j by (cases "isspace c") auto
    then have le: "j' \<le> length (takeWhile isspace cs)" using j j' by simp
    have "NL \<notin> set (takeWhile isspace cs)" using assms c by simp
    then have "NL \<notin> set (drop j' (takeWhile isspace cs))" by (auto dest: in_set_dropD)
    then have "drop j' cs = [] \<or> hd (drop j' cs) \<noteq> NL" using le by (rule run_tail_head[rotated])
    then show "rmatch [lit NL] (drop j (c # cs)) = None" using j' by (simp add: nl_head_None)
  qed
  then show ?thesis by (simp add: rmatch_many1)
qed

lemma ws_nl_hit:
  assumes "isspace c" and "takeWhile isspace cs = X @ NL # Y" and "NL \<notin> set Y"
  shows "rmatch [many1 isspace, lit NL] (c # cs) = Some (Suc (Suc (length X)))"
proof -
  let ?W = "takeWhile isspace cs"
  have n: "length (takeWhile isspace (c # cs)) = Suc (length ?W)" using assms(1) by simp
  have lenX: "length X \<le> length ?W" using assms(2) by simp
  have "drop (length X) cs = drop (length X) ?W @ dropWhile isspace cs"
    using lenX by (rule drop_in_run)
  then have "drop (length X) cs = NL # Y @ dropWhile isspace cs" using assms(2) by simp
  then have at: "rmatch [lit NL] (drop (Suc (length X)) (c # cs)) = Some 1"
    by (simp add: rmatch_nl_only)
  have later: "rmatch [lit NL] (drop i (c # cs)) = None"
    if h: "Suc (length X) < i" "i \<le> Suc (length ?W)" for i
  proof -
    obtain i' where i': "i = Suc i'" using h by (cases i) auto
    have le: "i' \<le> length ?W" using h i' by simp
    define d where "d = i' - Suc (length X)"
    have "i' = Suc (length X) + d" using h i' by (simp add: d_def)
    then have "drop i' ?W = drop d Y" using assms(2) by simp
    then have "NL \<notin> set (drop i' ?W)" using assms(3) by (auto dest: in_set_dropD)
    then have "drop i' cs = [] \<or> hd (drop i' cs) \<noteq> NL" using le by (rule run_tail_head[rotated])
    then show ?thesis using i' by (simp add: nl_head_None)
  qed
  have "tries (rmatch [lit NL]) (c # cs) 1 (Suc (length ?W)) = Some (Suc (length X) + 1)"
  proof (rule tries_first)
    show "1 \<le> Suc (length X)" by simp
    show "Suc (length X) \<le> Suc (length ?W)" using lenX by simp
    show "rmatch [lit NL] (drop (Suc (length X)) (c # cs)) = Some 1" by (rule at)
    show "\<And>i. Suc (length X) < i \<Longrightarrow> i \<le> Suc (length ?W) \<Longrightarrow>
           rmatch [lit NL] (drop i (c # cs)) = None" by (rule later)
  qed
  then show ?thesis using n by (simp add: rmatch_many1)
qed

text \<open>After a match of \<^verbatim>\<open>\s+\n\<close>, the white space that follows holds no newline.\<close>

lemma ws_nl_match:
  assumes "rmatch [many1 isspace, lit NL] (c # cs) = Some m"
  shows "isspace c \<and> (\<exists>k. m = Suc k \<and> 1 \<le> k \<and> k \<le> length (takeWhile isspace cs)
            \<and> NL \<notin> set (drop k (takeWhile isspace cs)))"
proof -
  have c: "isspace c" and nl: "NL \<in> set (takeWhile isspace cs)"
    using assms ws_nl_miss[of c cs] by auto
  obtain X Y where xy: "takeWhile isspace cs = X @ NL # Y" "NL \<notin> set Y"
    using split_list_last[OF nl] by auto
  have "rmatch [many1 isspace, lit NL] (c # cs) = Some (Suc (Suc (length X)))"
    using c xy by (rule ws_nl_hit)
  then have m: "m = Suc (Suc (length X))" using assms by simp
  have "Suc (length X) \<le> length (takeWhile isspace cs)" using xy(1) by simp
  moreover have "NL \<notin> set (drop (Suc (length X)) (takeWhile isspace cs))"
    using xy by simp
  ultimately show ?thesis using c m by auto
qed

lemma takeWhile_dropWhile_same: "takeWhile p (dropWhile p xs) = []"
  by (induction xs) auto

lemma clean_head_drop:
  assumes "k \<le> length (takeWhile isspace cs)" and "NL \<notin> set (drop k (takeWhile isspace cs))"
  shows "NL \<notin> set (takeWhile isspace (drop k cs))"
proof -
  have "drop k cs = drop k (takeWhile isspace cs) @ dropWhile isspace cs"
    using assms(1) by (rule drop_in_run)
  moreover have "takeWhile isspace (drop k (takeWhile isspace cs) @ dropWhile isspace cs)
        = drop k (takeWhile isspace cs)"
  proof -
    have all: "\<And>x. x \<in> set (drop k (takeWhile isspace cs)) \<Longrightarrow> isspace x"
      by (meson in_set_dropD set_takeWhileD)
    have "takeWhile isspace (dropWhile isspace cs) = []"
      by (rule takeWhile_dropWhile_same)
    then show ?thesis using all by (simp add: takeWhile_append2)
  qed
  ultimately show ?thesis using assms(2) by simp
qed

lemma ws_nl_None_iff:
  "rmatch [many1 isspace, lit NL] (c # cs) = None
     \<longleftrightarrow> \<not> isspace c \<or> NL \<notin> set (takeWhile isspace cs)"
proof
  assume none: "rmatch [many1 isspace, lit NL] (c # cs) = None"
  show "\<not> isspace c \<or> NL \<notin> set (takeWhile isspace cs)"
  proof (rule ccontr)
    assume "\<not> (\<not> isspace c \<or> NL \<notin> set (takeWhile isspace cs))"
    then have c: "isspace c" and nl: "NL \<in> set (takeWhile isspace cs)" by auto
    obtain X Y where xy: "takeWhile isspace cs = X @ NL # Y" "NL \<notin> set Y"
      using split_list_last[OF nl] by auto
    have "rmatch [many1 isspace, lit NL] (c # cs) = Some (Suc (Suc (length X)))"
      using c xy by (rule ws_nl_hit)
    then show False using none by simp
  qed
next
  assume "\<not> isspace c \<or> NL \<notin> set (takeWhile isspace cs)"
  then show "rmatch [many1 isspace, lit NL] (c # cs) = None" by (rule ws_nl_miss)
qed

lemma ws_nl_not_zero: "rmatch [many1 isspace, lit NL] (c # cs) \<noteq> Some 0"
  using ws_nl_match[of c cs 0] by auto

lemma ws_nl_free_Cons:
  "ws_nl_free (x # t) \<longleftrightarrow> (t = [] \<or> \<not> (isspace x \<and> hd t = NL)) \<and> ws_nl_free t"
  by (cases t) auto

lemma nl_ws_free_Cons:
  "nl_ws_free (x # t) \<longleftrightarrow> (t = [] \<or> \<not> (x = NL \<and> isspace (hd t))) \<and> nl_ws_free t"
  by (cases t) auto

lemma before_head:
  assumes "NL \<notin> set (takeWhile isspace t)"
  shows "squeeze_before t = [] \<or> hd (squeeze_before t) \<noteq> NL"
proof (cases t)
  case Nil
  then show ?thesis by simp
next
  case (Cons d ds)
  have dnl: "d \<noteq> NL" using assms Cons isspace_NL by (cases "isspace d") auto
  have "\<not> isspace d \<or> NL \<notin> set (takeWhile isspace ds)"
    using assms Cons by (cases "isspace d") auto
  then have "rmatch [many1 isspace, lit NL] (d # ds) = None" by (rule ws_nl_miss)
  then have "squeeze_before (d # ds) = d # squeeze_before ds" by (rule re_sub_skip)
  then show ?thesis using Cons dnl by simp
qed

lemma before_ws_nl_free: "ws_nl_free (squeeze_before s)"
proof (induction s rule: re_sub_scan_induct[where pat = "[many1 isspace, lit NL]"])
  case Nil
  then show ?case by simp
next
  case (Skip c cs)
  then have none: "rmatch [many1 isspace, lit NL] (c # cs) = None"
    using ws_nl_not_zero[of c cs] by auto
  then have out: "squeeze_before (c # cs) = c # squeeze_before cs" by (rule re_sub_skip)
  have "squeeze_before cs = [] \<or> \<not> (isspace c \<and> hd (squeeze_before cs) = NL)"
  proof (cases "isspace c")
    case True
    then have "NL \<notin> set (takeWhile isspace cs)" using none ws_nl_None_iff[of c cs] by simp
    then show ?thesis using before_head[of cs] by auto
  next
    case False
    then show ?thesis by simp
  qed
  then show ?case using out Skip(2) by (simp add: ws_nl_free_Cons)
next
  case (Hit c cs k)
  have out: "squeeze_before (c # cs) = [NL] @ squeeze_before (drop k cs)"
    using Hit(1) by (rule re_sub_hit)
  have "k \<le> length (takeWhile isspace cs) \<and> NL \<notin> set (drop k (takeWhile isspace cs))"
    using ws_nl_match[OF Hit(1)] by auto
  then have "NL \<notin> set (takeWhile isspace (drop k cs))" by (simp add: clean_head_drop)
  then have "squeeze_before (drop k cs) = [] \<or> hd (squeeze_before (drop k cs)) \<noteq> NL"
    by (rule before_head)
  then show ?case using out Hit(2) by (auto simp: ws_nl_free_Cons)
qed

text \<open>The pattern \<^verbatim>\<open>\n\s+\<close>.\<close>

lemma rmatch_after:
  "rmatch [lit NL, many1 isspace] (c # cs) =
     (if c = NL \<and> takeWhile isspace cs \<noteq> [] then Some (Suc (length (takeWhile isspace cs)))
      else None)"
  by (simp add: rmatch_lit rmatch_many1_last)

lemma takeWhile_Nil_hd: "takeWhile p cs \<noteq> [] \<longleftrightarrow> cs \<noteq> [] \<and> p (hd cs)"
  by (cases cs) auto

lemma after_hit:
  assumes "takeWhile isspace cs \<noteq> []"
  shows "squeeze_after (NL # cs) = NL # squeeze_after (dropWhile isspace cs)"
proof -
  have "rmatch [lit NL, many1 isspace] (NL # cs) = Some (Suc (length (takeWhile isspace cs)))"
    using assms by (simp add: rmatch_after)
  then have "squeeze_after (NL # cs)
             = [NL] @ squeeze_after (drop (length (takeWhile isspace cs)) cs)"
    by (rule re_sub_hit)
  then show ?thesis by (simp add: dropWhile_eq_drop)
qed

lemma after_skip:
  assumes "\<not> (c = NL \<and> takeWhile isspace cs \<noteq> [])"
  shows "squeeze_after (c # cs) = c # squeeze_after cs"
proof -
  have "rmatch [lit NL, many1 isspace] (c # cs) = None" using assms by (simp add: rmatch_after)
  then show ?thesis by (rule re_sub_skip)
qed

lemma after_hd: "s \<noteq> [] \<Longrightarrow> squeeze_after s \<noteq> [] \<and> hd (squeeze_after s) = hd s"
proof (cases s)
  case Nil
  assume "s \<noteq> []"
  then show ?thesis using Nil by simp
next
  case (Cons c cs)
  show ?thesis
  proof (cases "c = NL \<and> takeWhile isspace cs \<noteq> []")
    case True
    then show ?thesis using Cons after_hit[of cs] by simp
  next
    case False
    then show ?thesis using Cons after_skip[of c cs] by simp
  qed
qed

lemma ws_nl_free_drop: "ws_nl_free s \<Longrightarrow> ws_nl_free (drop n s)"
proof (induction n arbitrary: s)
  case 0
  then show ?case by simp
next
  case (Suc n)
  show ?case
  proof (cases s)
    case Nil
    then show ?thesis by simp
  next
    case (Cons x t)
    then have "ws_nl_free t" using Suc.prems by (simp add: ws_nl_free_Cons)
    then show ?thesis using Cons Suc.IH by simp
  qed
qed

lemma nl_ws_free_drop: "nl_ws_free s \<Longrightarrow> nl_ws_free (drop n s)"
proof (induction n arbitrary: s)
  case 0
  then show ?case by simp
next
  case (Suc n)
  show ?case
  proof (cases s)
    case Nil
    then show ?thesis by simp
  next
    case (Cons x t)
    then have "nl_ws_free t" using Suc.prems by (simp add: nl_ws_free_Cons)
    then show ?thesis using Cons Suc.IH by simp
  qed
qed

lemma ws_nl_free_prefix: "ws_nl_free (a @ b) \<Longrightarrow> ws_nl_free a"
proof (induction a)
  case Nil
  then show ?case by simp
next
  case (Cons x a)
  then have h: "(a @ b = [] \<or> \<not> (isspace x \<and> hd (a @ b) = NL)) \<and> ws_nl_free (a @ b)"
    by (simp add: ws_nl_free_Cons)
  then have "ws_nl_free a" using Cons.IH by simp
  moreover have "a = [] \<or> \<not> (isspace x \<and> hd a = NL)" using h by (cases a) auto
  ultimately show ?case by (simp add: ws_nl_free_Cons)
qed

lemma nl_ws_free_prefix: "nl_ws_free (a @ b) \<Longrightarrow> nl_ws_free a"
proof (induction a)
  case Nil
  then show ?case by simp
next
  case (Cons x a)
  then have h: "(a @ b = [] \<or> \<not> (x = NL \<and> isspace (hd (a @ b)))) \<and> nl_ws_free (a @ b)"
    by (simp add: nl_ws_free_Cons)
  then have "nl_ws_free a" using Cons.IH by simp
  moreover have "a = [] \<or> \<not> (x = NL \<and> isspace (hd a))" using h by (cases a) auto
  ultimately show ?case by (simp add: nl_ws_free_Cons)
qed

lemma after_tail_head:
  "squeeze_after (dropWhile isspace cs) = []
     \<or> \<not> isspace (hd (squeeze_after (dropWhile isspace cs)))"
proof -
  define dw where "dw = dropWhile isspace cs"
  have "squeeze_after dw = [] \<or> \<not> isspace (hd (squeeze_after dw))"
  proof (cases "dw = []")
    case True
    then show ?thesis by simp
  next
    case False
    then have "hd (squeeze_after dw) = hd dw" using after_hd by simp
    moreover have "\<not> isspace (hd dw)" using False hd_dropWhile[of isspace cs] by (simp add: dw_def)
    ultimately show ?thesis by simp
  qed
  then show ?thesis by (simp add: dw_def)
qed

lemma after_nl_ws_free: "nl_ws_free (squeeze_after s)"
proof (induction s rule: re_sub_scan_induct[where pat = "[lit NL, many1 isspace]"])
  case Nil
  then show ?case by simp
next
  case (Skip c cs)
  then have no: "\<not> (c = NL \<and> takeWhile isspace cs \<noteq> [])"
    by (auto simp: rmatch_after split: if_splits)
  then have out: "squeeze_after (c # cs) = c # squeeze_after cs" by (rule after_skip)
  have "squeeze_after cs = [] \<or> \<not> (c = NL \<and> isspace (hd (squeeze_after cs)))"
  proof (cases "cs = []")
    case True
    then show ?thesis by simp
  next
    case False
    then have "hd (squeeze_after cs) = hd cs" using after_hd by simp
    then show ?thesis using no False by (auto simp: takeWhile_Nil_hd)
  qed
  then show ?case using out Skip(2) by (simp add: nl_ws_free_Cons)
next
  case (Hit c cs k)
  then have c: "c = NL" and tw: "takeWhile isspace cs \<noteq> []"
    and k: "k = length (takeWhile isspace cs)"
    by (auto simp: rmatch_after split: if_splits)
  have out: "squeeze_after (c # cs) = NL # squeeze_after (dropWhile isspace cs)"
    using c tw after_hit by simp
  have ih: "nl_ws_free (squeeze_after (dropWhile isspace cs))"
    using Hit(2) k by (simp add: dropWhile_eq_drop)
  have "squeeze_after (dropWhile isspace cs) = []
        \<or> \<not> isspace (hd (squeeze_after (dropWhile isspace cs)))"
    by (rule after_tail_head)
  then show ?case using out ih by (auto simp: nl_ws_free_Cons)
qed

lemma after_keeps_ws_nl_free: "ws_nl_free s \<Longrightarrow> ws_nl_free (squeeze_after s)"
proof (induction s rule: re_sub_scan_induct[where pat = "[lit NL, many1 isspace]"])
  case Nil
  then show ?case by simp
next
  case (Skip c cs)
  then have no: "\<not> (c = NL \<and> takeWhile isspace cs \<noteq> [])"
    by (auto simp: rmatch_after split: if_splits)
  then have out: "squeeze_after (c # cs) = c # squeeze_after cs" by (rule after_skip)
  have h: "(cs = [] \<or> \<not> (isspace c \<and> hd cs = NL)) \<and> ws_nl_free cs"
    using Skip.prems by (simp add: ws_nl_free_Cons)
  have "squeeze_after cs = [] \<or> \<not> (isspace c \<and> hd (squeeze_after cs) = NL)"
  proof (cases "cs = []")
    case True
    then show ?thesis by simp
  next
    case False
    then have "hd (squeeze_after cs) = hd cs" using after_hd by simp
    then show ?thesis using h False by auto
  qed
  then show ?case using out Skip(2) h by (simp add: ws_nl_free_Cons)
next
  case (Hit c cs k)
  then have c: "c = NL" and tw: "takeWhile isspace cs \<noteq> []"
    and k: "k = length (takeWhile isspace cs)"
    by (auto simp: rmatch_after split: if_splits)
  have out: "squeeze_after (c # cs) = NL # squeeze_after (dropWhile isspace cs)"
    using c tw after_hit by simp
  have "ws_nl_free cs" using Hit.prems by (simp add: ws_nl_free_Cons)
  then have "ws_nl_free (drop k cs)" by (rule ws_nl_free_drop)
  then have ih: "ws_nl_free (squeeze_after (dropWhile isspace cs))"
    using Hit(2) k by (simp add: dropWhile_eq_drop)
  have "squeeze_after (dropWhile isspace cs) = []
        \<or> hd (squeeze_after (dropWhile isspace cs)) \<noteq> NL"
    using after_tail_head[of cs] isspace_NL by auto
  then show ?case using out ih by (auto simp: ws_nl_free_Cons)
qed

text \<open>A substitution whose pattern matches nowhere changes nothing.\<close>

lemma re_sub_id:
  assumes "\<And>c cs. Q (c # cs) \<Longrightarrow> rmatch pat (c # cs) = None"
    and "\<And>c cs. Q (c # cs) \<Longrightarrow> Q cs"
  shows "Q s \<Longrightarrow> re_sub pat rep s = s"
proof (induction s)
  case Nil
  then show ?case by simp
next
  case (Cons c cs)
  have "rmatch pat (c # cs) = None" using Cons.prems by (rule assms(1))
  then have "re_sub pat rep (c # cs) = c # re_sub pat rep cs" by (rule re_sub_skip)
  moreover have "Q cs" using Cons.prems by (rule assms(2))
  ultimately show ?case using Cons.IH by simp
qed

lemma run_has_pair:
  "isspace c \<Longrightarrow> NL \<in> set (takeWhile isspace cs) \<Longrightarrow> \<not> ws_nl_free (c # cs)"
proof (induction cs arbitrary: c)
  case Nil
  then show ?case by simp
next
  case (Cons d ds)
  have d: "isspace d" using Cons.prems(2) by (cases "isspace d") auto
  show ?case
  proof (cases "d = NL")
    case True
    then show ?thesis using Cons.prems(1) by simp
  next
    case False
    then have "NL \<in> set (takeWhile isspace ds)" using Cons.prems(2) d by simp
    then have "\<not> ws_nl_free (d # ds)" using d Cons.IH by simp
    then show ?thesis by simp
  qed
qed

lemma before_fixed: "ws_nl_free s \<Longrightarrow> squeeze_before s = s"
proof (rule re_sub_id[where Q = ws_nl_free])
  fix c cs assume "ws_nl_free (c # cs)"
  then have "\<not> isspace c \<or> NL \<notin> set (takeWhile isspace cs)" using run_has_pair by blast
  then show "rmatch [many1 isspace, lit NL] (c # cs) = None" by (rule ws_nl_miss)
next
  fix c cs assume "ws_nl_free (c # cs)"
  then show "ws_nl_free cs" by (simp add: ws_nl_free_Cons)
qed

lemma after_fixed: "nl_ws_free s \<Longrightarrow> squeeze_after s = s"
proof (rule re_sub_id[where Q = nl_ws_free])
  fix c cs assume h: "nl_ws_free (c # cs)"
  have "\<not> (c = NL \<and> takeWhile isspace cs \<noteq> [])"
  proof
    assume a: "c = NL \<and> takeWhile isspace cs \<noteq> []"
    then have "cs \<noteq> [] \<and> isspace (hd cs)" by (simp add: takeWhile_Nil_hd)
    then show False using h a by (simp add: nl_ws_free_Cons)
  qed
  then show "rmatch [lit NL, many1 isspace] (c # cs) = None" by (simp add: rmatch_after)
next
  fix c cs assume "nl_ws_free (c # cs)"
  then show "nl_ws_free cs" by (simp add: nl_ws_free_Cons)
qed

text \<open>The pattern \<^verbatim>\<open>\n{3,}\<close> finds nothing once no white space follows a newline.\<close>

lemma blank_fixed: "nl_ws_free s \<Longrightarrow> squeeze_blank s = s"
proof (rule re_sub_id[where Q = nl_ws_free])
  fix c cs assume h: "nl_ws_free (c # cs)"
  have "length (takeWhile (\<lambda>x. x = NL) (c # cs)) < 3"
  proof (cases cs)
    case Nil
    then show ?thesis by simp
  next
    case (Cons d ds)
    have "\<not> (c = NL \<and> d = NL)" using h Cons isspace_NL by auto
    then show ?thesis using Cons by auto
  qed
  then show "rmatch [atleast 3 (\<lambda>c. c = NL)] (c # cs) = None"
    by (simp add: rmatch_atleast_last)
next
  fix c cs assume "nl_ws_free (c # cs)"
  then show "nl_ws_free cs" by (simp add: nl_ws_free_Cons)
qed

text \<open>\<^verbatim>\<open>strip\<close> cuts a prefix and a suffix, and a second \<^verbatim>\<open>strip\<close> cuts nothing.\<close>

lemma strip_tail:
  "dropWhile isspace s = strip s @ rev (takeWhile isspace (rev (dropWhile isspace s)))"
proof -
  define y where "y = dropWhile isspace s"
  have "rev y = takeWhile isspace (rev y) @ dropWhile isspace (rev y)" by simp
  then have "rev (rev y) = rev (takeWhile isspace (rev y) @ dropWhile isspace (rev y))"
    by (rule arg_cong)
  then have "y = rev (dropWhile isspace (rev y)) @ rev (takeWhile isspace (rev y))"
    by (simp only: rev_rev_ident rev_append)
  then show ?thesis unfolding strip_def y_def .
qed

lemma strip_middle:
  "s = takeWhile isspace s @ strip s @ rev (takeWhile isspace (rev (dropWhile isspace s)))"
proof -
  have "s = takeWhile isspace s @ dropWhile isspace s" by simp
  then show ?thesis using strip_tail[of s] by simp
qed

lemma strip_head: "strip s \<noteq> [] \<Longrightarrow> \<not> isspace (hd (strip s))"
proof -
  assume ne: "strip s \<noteq> []"
  define y where "y = dropWhile isspace s"
  define b where "b = rev (takeWhile isspace (rev (dropWhile isspace s)))"
  have y: "y = strip s @ b" using strip_tail[of s] by (simp add: y_def b_def)
  then have yne: "y \<noteq> []" using ne by auto
  then have "\<not> isspace (hd y)" using hd_dropWhile[of isspace s] by (simp add: y_def)
  moreover have "hd y = hd (strip s)" using y ne by simp
  ultimately show ?thesis by simp
qed

lemma strip_idem: "strip (strip s) = strip s"
proof -
  define y where "y = dropWhile isspace s"
  define z where "z = dropWhile isspace (rev y)"
  have z: "strip s = rev z" by (simp add: strip_def y_def z_def)
  have "rev z = [] \<or> \<not> isspace (hd (rev z))" using strip_head[of s] z by auto
  then have a: "dropWhile isspace (rev z) = rev z" by (cases "rev z") auto
  have b: "dropWhile isspace z = z" by (simp add: z_def)
  have "strip (rev z) = rev (dropWhile isspace (rev (dropWhile isspace (rev z))))"
    by (simp add: strip_def)
  then have "strip (rev z) = rev z" using a b by simp
  then show ?thesis using z by simp
qed

lemma strip_keeps_ws_nl_free: "ws_nl_free s \<Longrightarrow> ws_nl_free (strip s)"
proof -
  assume h: "ws_nl_free s"
  define a where "a = takeWhile isspace s"
  define b where "b = rev (takeWhile isspace (rev (dropWhile isspace s)))"
  have s: "s = a @ strip s @ b" using strip_middle[of s] by (simp add: a_def b_def)
  have "ws_nl_free (drop (length a) s)" using h by (rule ws_nl_free_drop)
  moreover have "drop (length a) s = strip s @ b" using s by (metis append_eq_conv_conj)
  ultimately have "ws_nl_free (strip s @ b)" by simp
  then show ?thesis by (rule ws_nl_free_prefix)
qed

lemma strip_keeps_nl_ws_free: "nl_ws_free s \<Longrightarrow> nl_ws_free (strip s)"
proof -
  assume h: "nl_ws_free s"
  define a where "a = takeWhile isspace s"
  define b where "b = rev (takeWhile isspace (rev (dropWhile isspace s)))"
  have s: "s = a @ strip s @ b" using strip_middle[of s] by (simp add: a_def b_def)
  have "nl_ws_free (drop (length a) s)" using h by (rule nl_ws_free_drop)
  moreover have "drop (length a) s = strip s @ b" using s by (metis append_eq_conv_conj)
  ultimately have "nl_ws_free (strip s @ b)" by simp
  then show ?thesis by (rule nl_ws_free_prefix)
qed

text \<open>The pattern \<^verbatim>\<open>https?://\S+\<close>.\<close>

lemma str_http: "str ''http'' = [104, 116, 116, 112]"
  by (simp add: str_def)

lemma str_colon_slashes: "str ''://'' = [58, 47, 47]"
  by (simp add: str_def)

lemma str_http_url: "str ''http://'' = [104, 116, 116, 112, 58, 47, 47]"
  by (simp add: str_def)

lemma str_https_url: "str ''https://'' = [104, 116, 116, 112, 115, 58, 47, 47]"
  by (simp add: str_def)

lemma nonspace_url_chars:
  "nonspace 104" "nonspace 116" "nonspace 112" "nonspace 115" "nonspace 58" "nonspace 47"
  by (simp_all add: nonspace_def isspace_def)

lemma rmatch_url_tail:
  "rmatch [lit 58, lit 47, lit 47, many1 nonspace] s =
     (if \<exists>x r. nonspace x \<and> s = 58 # 47 # 47 # x # r
      then Some (length (takeWhile nonspace s)) else None)"
proof (cases "\<exists>x r. nonspace x \<and> s = 58 # 47 # 47 # x # r")
  case True
  then obtain x r where "nonspace x" "s = 58 # 47 # 47 # x # r" by auto
  then show ?thesis
    by (simp add: rmatch_lit rmatch_many1_last nonspace_url_chars)
next
  case False
  have "rmatch [lit 58, lit 47, lit 47, many1 nonspace] s = None"
  proof (cases s)
    case Nil
    then show ?thesis by (simp add: rmatch_lit)
  next
    case (Cons a s1)
    show ?thesis
    proof (cases s1)
      case Nil
      then show ?thesis using Cons by (simp add: rmatch_lit)
    next
      case (Cons b s2)
      note s1 = this
      show ?thesis
      proof (cases s2)
        case Nil
        then show ?thesis using \<open>s = a # s1\<close> s1 by (simp add: rmatch_lit)
      next
        case (Cons c s3)
        show ?thesis
        proof (cases s3)
          case Nil
          then show ?thesis using \<open>s = a # s1\<close> s1 Cons
            by (simp add: rmatch_lit rmatch_many1_last)
        next
          case (Cons x r)
          then have "\<not> (a = 58 \<and> b = 47 \<and> c = 47 \<and> nonspace x)"
            using False \<open>s = a # s1\<close> s1 \<open>s2 = c # s3\<close> by auto
          then show ?thesis using \<open>s = a # s1\<close> s1 \<open>s2 = c # s3\<close> Cons
            by (auto simp: rmatch_lit rmatch_many1_last)
        qed
      qed
    qed
  qed
  then show ?thesis using False by simp
qed

lemma url_pat_items:
  "url_pat = [lit 104, lit 116, lit 116, lit 112, maybe (\<lambda>c. c = 115),
              lit 58, lit 47, lit 47, many1 nonspace]"
  by (simp add: url_pat_def str_http str_colon_slashes)

lemma rmatch_url_s:
  "rmatch [maybe (\<lambda>c. c = 115), lit 58, lit 47, lit 47, many1 nonspace] t =
     (if \<exists>x r. nonspace x \<and> (t = 58 # 47 # 47 # x # r \<or> t = 115 # 58 # 47 # 47 # x # r)
      then Some (length (takeWhile nonspace t)) else None)"
proof (cases t)
  case Nil
  then show ?thesis by (simp add: rmatch_maybe rmatch_url_tail)
next
  case (Cons c cs)
  show ?thesis
  proof (cases "c = 115")
    case True
    have no: "rmatch [lit 58, lit 47, lit 47, many1 nonspace] (115 # cs) = None"
      by (simp add: rmatch_lit)
    show ?thesis
    proof (cases "\<exists>x r. nonspace x \<and> cs = 58 # 47 # 47 # x # r")
      case True
      then have "rmatch [lit 58, lit 47, lit 47, many1 nonspace] cs
                 = Some (length (takeWhile nonspace cs))"
        by (simp add: rmatch_url_tail)
      then show ?thesis using Cons \<open>c = 115\<close> True
        by (simp add: rmatch_maybe nonspace_url_chars)
    next
      case False
      then have "rmatch [lit 58, lit 47, lit 47, many1 nonspace] cs = None"
        by (simp add: rmatch_url_tail)
      then show ?thesis using Cons \<open>c = 115\<close> False no
        by (simp add: rmatch_maybe)
    qed
  next
    case False
    then show ?thesis using Cons by (auto simp: rmatch_maybe rmatch_url_tail)
  qed
qed

lemma url_start_alt:
  "url_start s \<longleftrightarrow>
     (\<exists>t. s = 104 # 116 # 116 # 112 # t
        \<and> (\<exists>x r. nonspace x \<and> (t = 58 # 47 # 47 # x # r \<or> t = 115 # 58 # 47 # 47 # x # r)))"
  by (auto simp: url_start_def str_http_url str_https_url)

lemma rmatch_url:
  "rmatch url_pat s = (if url_start s then Some (length (takeWhile nonspace s)) else None)"
proof (cases "\<exists>t. s = 104 # 116 # 116 # 112 # t")
  case True
  then obtain t where s: "s = 104 # 116 # 116 # 112 # t" by auto
  have "rmatch url_pat s
        = map_option (\<lambda>n. Suc (Suc (Suc (Suc n))))
            (rmatch [maybe (\<lambda>c. c = 115), lit 58, lit 47, lit 47, many1 nonspace] t)"
    using s by (simp add: url_pat_items rmatch_lit option.map_comp comp_def)
  moreover have "url_start s \<longleftrightarrow>
      (\<exists>x r. nonspace x \<and> (t = 58 # 47 # 47 # x # r \<or> t = 115 # 58 # 47 # 47 # x # r))"
    using s by (simp add: url_start_alt)
  moreover have "length (takeWhile nonspace s) = Suc (Suc (Suc (Suc (length (takeWhile nonspace t)))))"
    using s by (simp add: nonspace_url_chars)
  ultimately show ?thesis by (simp add: rmatch_url_s)
next
  case False
  then have "\<not> url_start s" by (auto simp: url_start_alt)
  moreover have "rmatch url_pat s = None"
  proof -
    have "rmatch (lit 104 # lit 116 # lit 116 # lit 112 # its) s = None" for its
      using False by (auto simp: rmatch_lit split: list.splits)
    then show ?thesis by (simp add: url_pat_items)
  qed
  ultimately show ?thesis by simp
qed

lemma url_start_token: "url_start (takeWhile nonspace s) \<longleftrightarrow> url_start s"
proof
  assume "url_start (takeWhile nonspace s)"
  then obtain x r where x: "nonspace x"
    and tw: "takeWhile nonspace s = str ''http://'' @ x # r
             \<or> takeWhile nonspace s = str ''https://'' @ x # r"
    by (auto simp: url_start_def)
  have "s = takeWhile nonspace s @ dropWhile nonspace s" by simp
  then have "s = str ''http://'' @ x # (r @ dropWhile nonspace s)
             \<or> s = str ''https://'' @ x # (r @ dropWhile nonspace s)"
    using tw by (metis append.assoc append_Cons)
  then show "url_start s" using x unfolding url_start_def by blast
next
  assume "url_start s"
  then obtain x r where x: "nonspace x"
    and s: "s = str ''http://'' @ x # r \<or> s = str ''https://'' @ x # r"
    by (auto simp: url_start_def)
  have "takeWhile nonspace s = str ''http://'' @ x # takeWhile nonspace r
        \<or> takeWhile nonspace s = str ''https://'' @ x # takeWhile nonspace r"
    using s x by (auto simp: str_http_url str_https_url nonspace_url_chars)
  then show "url_start (takeWhile nonspace s)" using x unfolding url_start_def by blast
qed

lemma rmatch_url_token: "rmatch url_pat (takeWhile nonspace s) = rmatch url_pat s"
  by (simp add: rmatch_url url_start_token)

lemma url_start_extend: "url_start p \<Longrightarrow> url_start (p @ q)"
proof -
  assume "url_start p"
  then obtain x r where x: "nonspace x"
    and p: "p = str ''http://'' @ x # r \<or> p = str ''https://'' @ x # r"
    by (auto simp: url_start_def)
  have "p @ q = str ''http://'' @ x # (r @ q) \<or> p @ q = str ''https://'' @ x # (r @ q)"
    using p by auto
  then show ?thesis using x unfolding url_start_def by blast
qed

lemma url_start_head: "url_start s \<Longrightarrow> s \<noteq> [] \<and> nonspace (hd s)"
  by (auto simp: url_start_def str_http_url str_https_url nonspace_url_chars)

lemma rmatch_url_space: "isspace c \<Longrightarrow> rmatch url_pat (c # cs) = None"
  using url_start_head[of "c # cs"] by (auto simp: rmatch_url nonspace_def)

lemma rmatch_url_Some:
  assumes "rmatch url_pat (c # cs) = Some m"
  shows "nonspace c \<and> m = Suc (length (takeWhile nonspace cs))"
proof -
  have u: "url_start (c # cs)" using assms by (simp add: rmatch_url split: if_splits)
  then have c: "nonspace c" using url_start_head[of "c # cs"] by simp
  then show ?thesis using assms u by (simp add: rmatch_url)
qed

lemma url_free_drop: "url_free s \<Longrightarrow> url_free (drop n s)"
proof (induction n arbitrary: s)
  case 0
  then show ?case by simp
next
  case (Suc n)
  then show ?case by (cases s) auto
qed

lemma url_free_prefix: "url_free (a @ b) \<Longrightarrow> url_free a"
proof (induction a)
  case Nil
  then show ?case by simp
next
  case (Cons x a)
  then have none: "rmatch url_pat (x # a @ b) = None" and rest: "url_free (a @ b)" by auto
  have "\<not> url_start (x # a)"
  proof
    assume "url_start (x # a)"
    then have "url_start ((x # a) @ b)" by (rule url_start_extend)
    then show False using none by (simp add: rmatch_url)
  qed
  then have "rmatch url_pat (x # a) = None" by (simp add: rmatch_url)
  then show ?case using Cons.IH rest by simp
qed

lemma url_free_spaces: "(\<And>x. x \<in> set r \<Longrightarrow> isspace x) \<Longrightarrow> url_free (r @ s) = url_free s"
  by (induction r) (auto simp: rmatch_url_space)

text \<open>Removing the links leaves no link.\<close>

lemma strip_urls_token:
  "prefix (takeWhile nonspace (strip_urls t)) (takeWhile nonspace t)"
proof (induction t rule: re_sub_scan_induct[where pat = url_pat])
  case Nil
  then show ?case by simp
next
  case (Skip c cs)
  then have none: "rmatch url_pat (c # cs) = None"
    using rmatch_url_Some[of c cs 0] by auto
  then have "strip_urls (c # cs) = c # strip_urls cs" by (rule re_sub_skip)
  then show ?case using Skip(2) by simp
next
  case (Hit c cs k)
  have k: "k = length (takeWhile nonspace cs)" using rmatch_url_Some[OF Hit(1)] by simp
  have out: "strip_urls (c # cs) = strip_urls (drop k cs)"
    using re_sub_hit[OF Hit(1), of "[]"] by simp
  have "takeWhile nonspace (drop k cs) = []"
    using k by (simp add: dropWhile_eq_drop[symmetric] takeWhile_dropWhile_same)
  then have "takeWhile nonspace (strip_urls (drop k cs)) = []" using Hit(2) by simp
  then show ?case using out by simp
qed

lemma strip_urls_free: "url_free (strip_urls t)"
proof (induction t rule: re_sub_scan_induct[where pat = url_pat])
  case Nil
  then show ?case by simp
next
  case (Skip c cs)
  then have none: "rmatch url_pat (c # cs) = None"
    using rmatch_url_Some[of c cs 0] by auto
  then have out: "strip_urls (c # cs) = c # strip_urls cs" by (rule re_sub_skip)
  have "\<not> url_start (c # strip_urls cs)"
  proof
    assume "url_start (c # strip_urls cs)"
    then have u: "url_start (takeWhile nonspace (c # strip_urls cs))"
      by (simp only: url_start_token)
    have c: "nonspace c" using url_start_head[OF \<open>url_start (c # strip_urls cs)\<close>] by simp
    obtain z where z: "takeWhile nonspace cs = takeWhile nonspace (strip_urls cs) @ z"
      using strip_urls_token[of cs] by (auto simp: prefix_def)
    have "takeWhile nonspace (c # cs) = takeWhile nonspace (c # strip_urls cs) @ z"
      using c z by simp
    then have "url_start (takeWhile nonspace (c # cs))" using u url_start_extend by metis
    then have "url_start (c # cs)" by (simp only: url_start_token)
    then show False using none by (simp add: rmatch_url)
  qed
  then have "rmatch url_pat (c # strip_urls cs) = None" by (simp add: rmatch_url)
  then show ?case using out Skip(2) by simp
next
  case (Hit c cs k)
  have "strip_urls (c # cs) = strip_urls (drop k cs)"
    using re_sub_hit[OF Hit(1), of "[]"] by simp
  then show ?case using Hit(2) by simp
qed

lemma strip_urls_fixed: "url_free s \<Longrightarrow> strip_urls s = s"
  by (rule re_sub_id[where Q = url_free]) auto

text \<open>
  A substitution that starts its matches at white space and writes white space keeps the
  tokens, and with them the absence of links.
\<close>

lemma re_sub_skip0:
  "rmatch pat (c # cs) = None \<or> rmatch pat (c # cs) = Some 0 \<Longrightarrow>
     re_sub pat rep (c # cs) = c # re_sub pat rep cs"
  by auto

lemma ws_rewrite_token:
  assumes "\<And>c cs k. rmatch pat (c # cs) = Some (Suc k) \<Longrightarrow> isspace c"
    and "rep \<noteq> []" and "\<And>x. x \<in> set rep \<Longrightarrow> isspace x"
  shows "takeWhile nonspace (re_sub pat rep t) = takeWhile nonspace t"
proof (induction t rule: re_sub_scan_induct[where pat = pat])
  case Nil
  then show ?case by simp
next
  case (Skip c cs)
  have "re_sub pat rep (c # cs) = c # re_sub pat rep cs" using Skip(1) by (rule re_sub_skip0)
  then show ?case using Skip(2) by simp
next
  case (Hit c cs k)
  have c: "isspace c" using Hit(1) by (rule assms(1))
  obtain r0 rs where rep: "rep = r0 # rs" using assms(2) by (cases rep) auto
  then have r0: "isspace r0" using assms(3)[of r0] by simp
  have "re_sub pat rep (c # cs) = rep @ re_sub pat rep (drop k cs)"
    using Hit(1) by (rule re_sub_hit)
  then show ?case using c r0 rep by (simp add: nonspace_def)
qed

lemma ws_rewrite_url_free:
  assumes "\<And>c cs k. rmatch pat (c # cs) = Some (Suc k) \<Longrightarrow> isspace c"
    and "rep \<noteq> []" and "\<And>x. x \<in> set rep \<Longrightarrow> isspace x"
  shows "url_free t \<Longrightarrow> url_free (re_sub pat rep t)"
proof (induction t rule: re_sub_scan_induct[where pat = pat])
  case Nil
  then show ?case by simp
next
  case (Skip c cs)
  have out: "re_sub pat rep (c # cs) = c # re_sub pat rep cs" using Skip(1) by (rule re_sub_skip0)
  have none: "rmatch url_pat (c # cs) = None" and rest: "url_free cs" using Skip.prems by auto
  have "takeWhile nonspace (re_sub pat rep (c # cs)) = takeWhile nonspace (c # cs)"
    using assms by (rule ws_rewrite_token)
  then have "rmatch url_pat (takeWhile nonspace (c # re_sub pat rep cs))
             = rmatch url_pat (takeWhile nonspace (c # cs))"
    using out by simp
  then have "rmatch url_pat (c # re_sub pat rep cs) = rmatch url_pat (c # cs)"
    by (simp only: rmatch_url_token)
  then show ?case using out none rest Skip(2) by simp
next
  case (Hit c cs k)
  have out: "re_sub pat rep (c # cs) = rep @ re_sub pat rep (drop k cs)"
    using Hit(1) by (rule re_sub_hit)
  have "url_free cs" using Hit.prems by simp
  then have "url_free (drop k cs)" by (rule url_free_drop)
  then have "url_free (re_sub pat rep (drop k cs))" by (rule Hit(2))
  then show ?case using out assms(3) by (simp add: url_free_spaces)
qed

lemma before_keeps_url_free: "url_free t \<Longrightarrow> url_free (squeeze_before t)"
proof (rule ws_rewrite_url_free)
  fix c cs k assume "rmatch [many1 isspace, lit NL] (c # cs) = Some (Suc k)"
  then show "isspace c" using ws_nl_match by blast
qed (simp_all add: isspace_NL)

lemma after_keeps_url_free: "url_free t \<Longrightarrow> url_free (squeeze_after t)"
proof (rule ws_rewrite_url_free)
  fix c cs k assume "rmatch [lit NL, many1 isspace] (c # cs) = Some (Suc k)"
  then have "c = NL" by (simp add: rmatch_after split: if_splits)
  then show "isspace c" by (simp add: isspace_NL)
qed (simp_all add: isspace_NL)

lemma blank_keeps_url_free: "url_free t \<Longrightarrow> url_free (squeeze_blank t)"
proof (rule ws_rewrite_url_free)
  fix c cs k assume "rmatch [atleast 3 (\<lambda>c. c = NL)] (c # cs) = Some (Suc k)"
  then have "c = NL" by (cases "c = NL") (simp_all add: rmatch_atleast_last)
  then show "isspace c" by (simp add: isspace_NL)
qed (simp_all add: isspace_NL)

lemma strip_keeps_url_free: "url_free s \<Longrightarrow> url_free (strip s)"
proof -
  assume h: "url_free s"
  define a where "a = takeWhile isspace s"
  define b where "b = rev (takeWhile isspace (rev (dropWhile isspace s)))"
  have "dropWhile isspace s = strip s @ b" using strip_tail[of s] by (simp add: b_def)
  moreover have "url_free (drop (length a) s)" using h by (rule url_free_drop)
  ultimately have "url_free (strip s @ b)" by (simp add: a_def dropWhile_eq_drop)
  then show ?thesis by (rule url_free_prefix)
qed

section \<open>\<^verbatim>\<open>clean_text\<close>: its normal form\<close>

lemma normal_form:
  "ws_nl_free (strip (squeeze_blank (squeeze_after (squeeze_before x))))
   \<and> nl_ws_free (strip (squeeze_blank (squeeze_after (squeeze_before x))))"
proof -
  define x1 where "x1 = squeeze_before x"
  define x2 where "x2 = squeeze_after x1"
  have a: "ws_nl_free x2" unfolding x2_def x1_def
    by (rule after_keeps_ws_nl_free) (rule before_ws_nl_free)
  have b: "nl_ws_free x2" unfolding x2_def by (rule after_nl_ws_free)
  have c: "squeeze_blank x2 = x2" using b by (rule blank_fixed)
  have "ws_nl_free (strip x2)" using a by (rule strip_keeps_ws_nl_free)
  moreover have "nl_ws_free (strip x2)" using b by (rule strip_keeps_nl_ws_free)
  ultimately have "ws_nl_free (strip (squeeze_blank x2)) \<and> nl_ws_free (strip (squeeze_blank x2))"
    using c by simp
  then show ?thesis unfolding x2_def x1_def .
qed

text \<open>\<^verbatim>\<open>clean_text\<close> is the white space passes after the optional passes.\<close>

lemma clean_text_shape:
  "clean_text W t r s =
     strip (squeeze_blank (squeeze_after (squeeze_before
       (if r then strip_urls (if s then re_sub sponsored_content [] (re_sub (ads_by W) [] t) else t)
        else (if s then re_sub sponsored_content [] (re_sub (ads_by W) [] t) else t)))))"
  by (simp add: clean_text_def Let_def)

lemma clean_text_ws_nl_free: "ws_nl_free (clean_text W t r s)"
  unfolding clean_text_shape using normal_form by blast

lemma clean_text_nl_ws_free: "nl_ws_free (clean_text W t r s)"
  unfolding clean_text_shape using normal_form by blast

lemma clean_text_stripped: "strip (clean_text W t r s) = clean_text W t r s"
  unfolding clean_text_shape by (rule strip_idem)

lemma pipeline_keeps_url_free:
  "url_free x \<Longrightarrow> url_free (strip (squeeze_blank (squeeze_after (squeeze_before x))))"
  by (intro strip_keeps_url_free blank_keeps_url_free after_keeps_url_free before_keeps_url_free)

lemma clean_text_url_free: "url_free (clean_text W t True s)"
  by (simp add: clean_text_def Let_def pipeline_keeps_url_free strip_urls_free)

text \<open>A text in normal form is a fixed point of \<^verbatim>\<open>clean_text\<close> without ad stripping.\<close>

lemma clean_text_fixed:
  assumes "ws_nl_free x" and "nl_ws_free x" and "strip x = x" and "r \<longrightarrow> url_free x"
  shows "clean_text W x r False = x"
proof -
  have u: "(if r then strip_urls x else x) = x" using assms(4) by (simp add: strip_urls_fixed)
  have "strip (squeeze_blank (squeeze_after (squeeze_before x))) = x"
    using assms(1,2,3) by (simp add: before_fixed after_fixed blank_fixed)
  then show ?thesis using u by (simp add: clean_text_def Let_def)
qed

lemma clean_text_second_pass:
  "clean_text W (clean_text W t r s) r False = clean_text W t r s"
proof (rule clean_text_fixed)
  show "r \<longrightarrow> url_free (clean_text W t r s)" using clean_text_url_free by auto
qed (rule clean_text_ws_nl_free clean_text_nl_ws_free clean_text_stripped)+

text \<open>
  C3, as amended. Without ad stripping, \<^verbatim>\<open>clean_text\<close> is idempotent, for every text and
  either value of \<^verbatim>\<open>remove_links\<close>.
\<close>

theorem clean_text_idempotent_no_ads:
  "clean_text W (clean_text W t r False) r False = clean_text W t r False"
  by (rule clean_text_second_pass)

lemmas run_pattern =
  str_def ads_by_def sponsored_content_def url_pat_items letter_def
  rmatch_once rmatch_lit rmatch_maybe rmatch_many1 rmatch_many1_last rmatch_atleast_last
  isspace_def nonspace_def word_def ascii_alnum_def NL_def strip_def

lemma ads_pass_example:
  "re_sub (ads_by ascii_alnum) [] (str ''Sponsored Sponsored ContentContent'')
     = str ''Sponsored Sponsored ContentContent''"
  by (simp add: run_pattern)

lemma sponsored_pass_example:
  "re_sub sponsored_content [] (str ''Sponsored Sponsored ContentContent'')
     = str ''Sponsored Content''"
  by (simp add: run_pattern)

lemma sponsored_pass_example2:
  "re_sub sponsored_content [] (re_sub (ads_by ascii_alnum) [] (str ''Sponsored Content'')) = []"
  by (simp add: run_pattern)

lemma white_space_example:
  "strip (squeeze_blank (squeeze_after (squeeze_before (strip_urls (str ''Sponsored Content'')))))
     = str ''Sponsored Content''"
  by (simp add: run_pattern)

lemma white_space_example2:
  "strip (squeeze_blank (squeeze_after (squeeze_before (str ''Sponsored Content''))))
     = str ''Sponsored Content''"
  by (simp add: run_pattern)

lemma clean_text_example:
  "clean_text ascii_alnum (str ''Sponsored Sponsored ContentContent'') r True
     = str ''Sponsored Content''"
  unfolding clean_text_shape
  by (cases r) (simp_all only: ads_pass_example sponsored_pass_example white_space_example
      white_space_example2 if_True if_False)

lemma clean_text_example2:
  "clean_text ascii_alnum (str ''Sponsored Content'') r True = []"
  unfolding clean_text_shape
  by (simp add: sponsored_pass_example2 strip_def)

text \<open>
  C3, as stated, fails with ad stripping: removing the marker in the middle of
  \<^verbatim>\<open>Sponsored Sponsored ContentContent\<close> leaves \<^verbatim>\<open>Sponsored Content\<close>, which a second call
  removes.
\<close>

theorem clean_text_not_idempotent:
  "clean_text ascii_alnum
     (clean_text ascii_alnum (str ''Sponsored Sponsored ContentContent'') True True) True True
   \<noteq> clean_text ascii_alnum (str ''Sponsored Sponsored ContentContent'') True True"
proof -
  have "str ''Sponsored Content'' \<noteq> []" by (simp add: str_def)
  then show ?thesis by (simp only: clean_text_example clean_text_example2 not_sym not_False_eq_True)
qed

section \<open>The retry loop of \<^verbatim>\<open>cli_runner.py\<close>\<close>

lemma cli_chapter_page:
  assumes "visit_at w (navs s) url = Page t b"
  shows "cli_chapter L w a i url n s =
     (let s1 = s\<lparr>trace := trace s @ [Goto url], navs := navs s + 1\<rparr>;
          s2 = (if wait_after_load a \<noteq> 0
                then s1\<lparr>trace := trace s1 @ [Wait (wait_after_load a)]\<rparr> else s1);
          title = safe_filename_cli (or_else t (str ''chapter_'' @ decimal i));
          text = clean_text (alnum L) (or_else b []) (\<not> include_links a) (\<not> no_strip_ads a)
      in (Extracted title text url,
          s2\<lparr>trace := trace s2 @ save_events i title (include_links a) url text\<rparr>))"
  using assms by (subst cli_chapter.simps) (simp add: Let_def)

lemma cli_chapter_retry:
  assumes "raises (visit_at w (navs s) url)" and "int (Suc n) \<le> retries a"
    and "sleep_polite L w (min_d a) (max_d a)
           (s\<lparr>trace := trace s @ [Goto url], navs := navs s + 1\<rparr>) = Some s'"
  shows "cli_chapter L w a i url n s = cli_chapter L w a i url (Suc n) s'"
  using assms by (subst cli_chapter.simps) (auto simp: Let_def raises_def split: visit.splits)

lemma cli_chapter_crash:
  assumes "raises (visit_at w (navs s) url)" and "int (Suc n) \<le> retries a"
    and "sleep_polite L w (min_d a) (max_d a)
           (s\<lparr>trace := trace s @ [Goto url], navs := navs s + 1\<rparr>) = None"
  shows "cli_chapter L w a i url n s =
     (Crashed, s\<lparr>trace := trace s @ [Goto url], navs := navs s + 1\<rparr>)"
  using assms by (subst cli_chapter.simps) (auto simp: Let_def raises_def split: visit.splits)

lemma cli_chapter_give_up:
  assumes "raises (visit_at w (navs s) url)" and "\<not> int (Suc n) \<le> retries a"
  shows "cli_chapter L w a i url n s =
     (Failed (Suc n), s\<lparr>trace := trace s @ [Goto url], navs := navs s + 1\<rparr>)"
  using assms by (subst cli_chapter.simps) (auto simp: Let_def raises_def split: visit.splits)

text \<open>What a call of \<^verbatim>\<open>sleep_polite\<close> that returns has done.\<close>

lemma sleep_polite_Some:
  assumes "sleep_polite L w lo_d hi_d s = Some s'"
  shows "\<exists>d. s' = s\<lparr>trace := trace s @ [Pace d], draws := draws s + 1\<rparr>
            \<and> pymax (Num 0) (uniform w (draws s) lo_d hi_d) = Num d
            \<and> 0 \<le> d \<and> d \<le> max 0 (sleep_max L)"
  using assms
  by (auto simp: sleep_polite_def split: pyfloat.splits if_splits)

lemma sleep_polite_navs: "sleep_polite L w lo_d hi_d s = Some s' \<Longrightarrow> navs s' = navs s"
  using sleep_polite_Some by fastforce

lemma sleep_polite_trace:
  "sleep_polite L w lo_d hi_d s = Some s' \<Longrightarrow> \<exists>d. trace s' = trace s @ [Pace d]"
  using sleep_polite_Some by fastforce

lemma saves_simps [simp]:
  "\<not> saves (Goto u)" "\<not> saves (Wait m)" "\<not> saves (Pace d)"
  "saves (WriteFile n t)" "saves (Combined t)"
  by (simp_all add: saves_def)

lemma paces_simps [simp]:
  "\<not> paces (Goto u)" "\<not> paces (Wait m)" "paces (Pace d)"
  "\<not> paces (WriteFile n t)" "\<not> paces (Combined t)"
  by (simp_all add: paces_def)

text \<open>
  A link whose every visit raises, with pauses that \<^verbatim>\<open>time.sleep\<close> accepts: from attempt
  counter \<open>n\<close>, the loop visits it until the counter is \<open>R + 1\<close>, gives up, and has saved
  nothing.
\<close>

lemma cli_chapter_exhausts:
  assumes "\<And>k. raises (visit_at w k url)" and "retries a = int R"
    and "\<And>s. sleep_polite L w (min_d a) (max_d a) s \<noteq> None"
  shows "n \<le> R \<Longrightarrow>
     fst (cli_chapter L w a i url n s) = Failed (Suc R)
     \<and> navs (snd (cli_chapter L w a i url n s)) = navs s + (Suc R - n)
     \<and> count_list (trace (snd (cli_chapter L w a i url n s))) (Goto url)
         = count_list (trace s) (Goto url) + (Suc R - n)
     \<and> filter saves (trace (snd (cli_chapter L w a i url n s))) = filter saves (trace s)"
proof (induction "R - n" arbitrary: n s)
  case 0
  then have n: "n = R" by simp
  have "\<not> int (Suc n) \<le> retries a" using n assms(2) by simp
  then have "cli_chapter L w a i url n s
             = (Failed (Suc n), s\<lparr>trace := trace s @ [Goto url], navs := navs s + 1\<rparr>)"
    using assms(1) by (simp add: cli_chapter_give_up)
  then show ?case using n by simp
next
  case (Suc d)
  then have lt: "n < R" by simp
  obtain s' where s': "sleep_polite L w (min_d a) (max_d a)
                         (s\<lparr>trace := trace s @ [Goto url], navs := navs s + 1\<rparr>) = Some s'"
    using assms(3) by blast
  have "int (Suc n) \<le> retries a" using lt assms(2) by simp
  then have step: "cli_chapter L w a i url n s = cli_chapter L w a i url (Suc n) s'"
    using assms(1) s' by (simp add: cli_chapter_retry)
  have d: "d = R - Suc n" using Suc(2) by simp
  have le: "Suc n \<le> R" using lt by simp
  note ih = Suc(1)[OF d le, of s']
  have "navs s' = navs s + 1" using sleep_polite_navs[OF s'] by simp
  moreover obtain p where "trace s' = trace s @ [Goto url, Pace p]"
    using sleep_polite_trace[OF s'] by auto
  ultimately show ?case using ih step lt by simp arith
qed

text \<open>The loop over the links, one link at a time.\<close>

lemma cli_chapters_crash:
  "fst (cli_chapter L w a i url 0 s) = Crashed \<Longrightarrow>
   cli_chapters L w a ((i, url) # rest) s = ([Crashed], snd (cli_chapter L w a i url 0 s))"
  by (simp add: Let_def case_prod_unfold)

lemma cli_chapters_pace_crash:
  "fst (cli_chapter L w a i url 0 s) \<noteq> Crashed \<Longrightarrow>
   sleep_polite L w (min_d a) (max_d a) (snd (cli_chapter L w a i url 0 s)) = None \<Longrightarrow>
   cli_chapters L w a ((i, url) # rest) s
     = ([fst (cli_chapter L w a i url 0 s), Crashed], snd (cli_chapter L w a i url 0 s))"
  by (simp add: Let_def case_prod_unfold)

lemma cli_chapters_step:
  "fst (cli_chapter L w a i url 0 s) \<noteq> Crashed \<Longrightarrow>
   sleep_polite L w (min_d a) (max_d a) (snd (cli_chapter L w a i url 0 s)) = Some s' \<Longrightarrow>
   cli_chapters L w a ((i, url) # rest) s
     = (fst (cli_chapter L w a i url 0 s) # fst (cli_chapters L w a rest s'),
        snd (cli_chapters L w a rest s'))"
  by (simp add: Let_def case_prod_unfold)

declare cli_chapters.simps(2) [simp del]

text \<open>
  The four ways one round of the retry loop goes: the page is read; the visit raises and
  no retry is left; it raises and the pause before the retry raises too; it raises and the
  loop goes round again.
\<close>

lemma cli_chapter_rounds [case_names Page GiveUp Crash Retry]:
  assumes "\<And>n s t b. visit_at w (navs s) url = Page t b \<Longrightarrow> P n s"
    and "\<And>n s. raises (visit_at w (navs s) url) \<Longrightarrow> \<not> int (Suc n) \<le> retries a \<Longrightarrow> P n s"
    and "\<And>n s. raises (visit_at w (navs s) url) \<Longrightarrow> int (Suc n) \<le> retries a \<Longrightarrow>
           sleep_polite L w (min_d a) (max_d a)
             (s\<lparr>trace := trace s @ [Goto url], navs := navs s + 1\<rparr>) = None \<Longrightarrow> P n s"
    and "\<And>n s s'. raises (visit_at w (navs s) url) \<Longrightarrow> int (Suc n) \<le> retries a \<Longrightarrow>
           sleep_polite L w (min_d a) (max_d a)
             (s\<lparr>trace := trace s @ [Goto url], navs := navs s + 1\<rparr>) = Some s' \<Longrightarrow>
           P (Suc n) s' \<Longrightarrow> P n s"
  shows "P n s"
proof -
  have "\<forall>n s. nat (retries a + 1 - int n) = k \<longrightarrow> P n s" for k
  proof (induction k rule: less_induct)
    case (less k)
    show ?case
    proof (intro allI impI)
    fix n s
    assume k: "nat (retries a + 1 - int n) = k"
    show "P n s"
    proof (cases "raises (visit_at w (navs s) url)")
      case False
      then obtain t b where "visit_at w (navs s) url = Page t b"
        by (auto simp: raises_def split: visit.splits)
      then show ?thesis by (rule assms(1))
    next
      case r: True
      show ?thesis
      proof (cases "int (Suc n) \<le> retries a")
        case False
        with r show ?thesis by (rule assms(2))
      next
        case True
        show ?thesis
        proof (cases "sleep_polite L w (min_d a) (max_d a)
                        (s\<lparr>trace := trace s @ [Goto url], navs := navs s + 1\<rparr>)")
          case None
          with r True show ?thesis by (rule assms(3))
        next
          case (Some s')
          have "nat (retries a + 1 - int (Suc n)) < k"
            using True k by simp
          then have "P (Suc n) s'" using less.IH by blast
          with r True Some show ?thesis by (rule assms(4))
        qed
      qed
    qed
    qed
  qed
  then show ?thesis by blast
qed

text \<open>
  Whatever happens, the loop starts with a visit of the link, and what it adds to the
  trace does not end with a pacing step.
\<close>

lemma cli_chapter_events:
  "\<exists>evs. trace (snd (cli_chapter L w a i url n s)) = trace s @ Goto url # evs
         \<and> \<not> paces (last (Goto url # evs))"
proof (induction n s rule: cli_chapter_rounds[where w = w and url = url and a = a and L = L])
  case (Page n s t b)
  show ?case unfolding cli_chapter_page[OF Page] by (simp add: Let_def save_events_def)
next
  case (GiveUp n s)
  show ?case unfolding cli_chapter_give_up[OF GiveUp] by simp
next
  case (Crash n s)
  show ?case unfolding cli_chapter_crash[OF Crash] by simp
next
  case (Retry n s s')
  obtain evs where e: "trace (snd (cli_chapter L w a i url (Suc n) s')) = trace s' @ Goto url # evs"
    "\<not> paces (last (Goto url # evs))" using Retry(4) by blast
  obtain p where p: "trace s' = trace (s\<lparr>trace := trace s @ [Goto url], navs := navs s + 1\<rparr>) @ [Pace p]"
    using sleep_polite_trace[OF Retry(3)] by blast
  have "trace (snd (cli_chapter L w a i url (Suc n) s'))
        = trace s @ Goto url # (Pace p # Goto url # evs)" using e(1) p by simp
  moreover have "\<not> paces (last (Goto url # (Pace p # Goto url # evs)))" using e(2) by simp
  ultimately show ?case unfolding cli_chapter_retry[OF Retry(1,2,3)] by blast
qed

lemma cli_chapters_trace:
  "\<exists>evs. trace (snd (cli_chapters L w a links s)) = trace s @ evs"
proof (induction links arbitrary: s)
  case Nil
  show ?case by simp
next
  case (Cons p links)
  obtain i url where p: "p = (i, url)" by (cases p)
  obtain e1 where e1: "trace (snd (cli_chapter L w a i url 0 s)) = trace s @ e1"
    using cli_chapter_events[of L w a i url 0 s] by blast
  show ?case
  proof (cases "fst (cli_chapter L w a i url 0 s) = Crashed")
    case True
    show ?thesis unfolding p cli_chapters_crash[OF True] using e1 by simp
  next
    case False
    show ?thesis
    proof (cases "sleep_polite L w (min_d a) (max_d a) (snd (cli_chapter L w a i url 0 s))")
      case None
      show ?thesis unfolding p cli_chapters_pace_crash[OF False None] using e1 by simp
    next
      case (Some s')
      obtain d where d: "trace s' = trace (snd (cli_chapter L w a i url 0 s)) @ [Pace d]"
        using sleep_polite_trace[OF Some] by blast
      obtain e2 where e2: "trace (snd (cli_chapters L w a links s')) = trace s' @ e2"
        using Cons.IH by blast
      show ?thesis unfolding p cli_chapters_step[OF False Some] using e1 d e2 by simp
    qed
  qed
qed

text \<open>The loop over the links starts with a visit of the first link.\<close>

lemma cli_chapters_first:
  "\<exists>evs. trace (snd (cli_chapters L w a ((i, url) # rest) s)) = trace s @ Goto url # evs"
proof -
  obtain e1 where e1: "trace (snd (cli_chapter L w a i url 0 s)) = trace s @ Goto url # e1"
    using cli_chapter_events[of L w a i url 0 s] by blast
  show ?thesis
  proof (cases "fst (cli_chapter L w a i url 0 s) = Crashed")
    case True
    show ?thesis unfolding cli_chapters_crash[OF True] using e1 by simp
  next
    case False
    show ?thesis
    proof (cases "sleep_polite L w (min_d a) (max_d a) (snd (cli_chapter L w a i url 0 s))")
      case None
      show ?thesis unfolding cli_chapters_pace_crash[OF False None] using e1 by simp
    next
      case (Some s')
      obtain d where d: "trace s' = trace (snd (cli_chapter L w a i url 0 s)) @ [Pace d]"
        using sleep_polite_trace[OF Some] by blast
      obtain e2 where e2: "trace (snd (cli_chapters L w a rest s')) = trace s' @ e2"
        using cli_chapters_trace by blast
      show ?thesis unfolding cli_chapters_step[OF False Some] using e1 d e2 by simp
    qed
  qed
qed

text \<open>
  With \<^verbatim>\<open>--retries 2\<close> and pauses that \<^verbatim>\<open>time.sleep\<close> accepts, a link whose every visit raises
  is visited exactly 3 times and ends as \<open>Failed 3\<close> with nothing saved; after one pacing
  step the loop visits the next link.
\<close>

lemma cli_retry_then_next_link:
  assumes "\<And>k. raises (visit_at w k url)" and "retries a = 2"
    and "\<And>s. sleep_polite L w (min_d a) (max_d a) s \<noteq> None"
  shows "fst (cli_chapter L w a i url 0 s) = Failed 3
     \<and> navs (snd (cli_chapter L w a i url 0 s)) = navs s + 3
     \<and> count_list (trace (snd (cli_chapter L w a i url 0 s))) (Goto url)
         = count_list (trace s) (Goto url) + 3
     \<and> filter saves (trace (snd (cli_chapter L w a i url 0 s))) = filter saves (trace s)
     \<and> (\<exists>d evs. trace (snd (cli_chapters L w a ((i, url) # (j, url2) # rest) s))
           = trace (snd (cli_chapter L w a i url 0 s)) @ Pace d # Goto url2 # evs)
     \<and> (\<exists>rs. fst (cli_chapters L w a ((i, url) # (j, url2) # rest) s) = Failed 3 # rs)"
proof -
  have r: "retries a = int 2" using assms(2) by simp
  have "0 \<le> (2::nat)" by simp
  note e = cli_chapter_exhausts[OF assms(1) r assms(3) this, of i s]
  have three: "Suc 2 = 3" by simp
  have f: "fst (cli_chapter L w a i url 0 s) \<noteq> Crashed" using e by simp
  obtain s1 where s1: "sleep_polite L w (min_d a) (max_d a) (snd (cli_chapter L w a i url 0 s))
                       = Some s1" using assms(3) by blast
  obtain d where d: "trace s1 = trace (snd (cli_chapter L w a i url 0 s)) @ [Pace d]"
    using sleep_polite_trace[OF s1] by blast
  obtain evs where evs: "trace (snd (cli_chapters L w a ((j, url2) # rest) s1))
                         = trace s1 @ Goto url2 # evs"
    using cli_chapters_first by blast
  have "trace (snd (cli_chapters L w a ((i, url) # (j, url2) # rest) s))
        = trace (snd (cli_chapter L w a i url 0 s)) @ Pace d # Goto url2 # evs"
    unfolding cli_chapters_step[OF f s1] using d evs by simp
  moreover have "fst (cli_chapters L w a ((i, url) # (j, url2) # rest) s)
                 = Failed 3 # fst (cli_chapters L w a ((j, url2) # rest) s1)"
    unfolding cli_chapters_step[OF f s1] using e by (simp add: three)
  ultimately show ?thesis using e by (simp add: three)
qed

text \<open>A run of \<^verbatim>\<open>main\<close> that reaches the loop over the links.\<close>

lemma cli_main_run:
  assumes "is_valid_url L (toc a)" and "toc_page w = Loaded hrefs"
    and "collect_links hrefs \<noteq> []" and "base_url L (toc a) = Some base" and "\<not> dry_run a"
    and "cli_chapters L w a
           (enumerate1 (take (nat (max 1 (max_chapters a)))
              (map (absolute L base) (collect_links hrefs))))
           (st0\<lparr>trace := Goto (toc a)
               # (if wait_after_load a \<noteq> 0 then [Wait (wait_after_load a)] else [])\<rparr>) = (rs, s)"
  shows "cli_main L w a
         = (trace s, if Crashed \<in> set rs then Inl SleepOverflow else Inr (Finished rs))"
  using assms by (simp add: cli_main_def Let_def)

lemma lib0_valid: "is_valid_url lib0 u"
  by (simp add: is_valid_url_def lib0_def str_def)

lemma lib0_base: "base_url lib0 u = Some (str ''https://ex.test'')"
  by (simp add: base_url_def lib0_def str_def)

lemma lib0_absolute_u: "absolute lib0 (str ''https://ex.test'') (str ''/u'') = str ''https://ex.test/u''"
  by (simp add: absolute_def startswith_def lib0_def str_def)

lemma lib0_absolute_v: "absolute lib0 (str ''https://ex.test'') (str ''/v'') = str ''https://ex.test/v''"
  by (simp add: absolute_def startswith_def lib0_def str_def)

lemma collect_links_uv:
  "collect_links [Some (str ''/u''), Some (str ''/v'')] = [str ''/u'', str ''/v'']"
  by (simp add: collect_links_def List.map_filter_def str_def)

lemma collect_links_u: "collect_links [Some (str ''/u'')] = [str ''/u'']"
  by (simp add: collect_links_def List.map_filter_def str_def)

lemma enumerate1_one: "enumerate1 [x] = [(1, x)]"
  by (simp add: enumerate1_def)

lemma enumerate1_two: "enumerate1 [x, y] = [(1, x), (2, y)]"
  by (simp add: enumerate1_def upt_rec)

text \<open>
  C1. \<^verbatim>\<open>cli_runner.py\<close> with \<^verbatim>\<open>--retries 2\<close> (the default) and \<^verbatim>\<open>--min-delay 1e10\<close>, on two links
  whose visits time out: the pause before the first retry is \<^verbatim>\<open>time.sleep(1e10)\<close>, which
  raises \<^verbatim>\<open>OverflowError\<close> outside the \<^verbatim>\<open>try\<close> block. The first link has been visited once, no
  outcome is recorded for it, and the second link is never visited.
\<close>

theorem cli_retry_aborted_by_sleep:
  "retries (args0\<lparr>min_delay := Num 10000000000\<rparr>) = 2
   \<and> cli_main lib0 (world0 (Loaded [Some (str ''/u''), Some (str ''/v'')]) Timeout)
       (args0\<lparr>min_delay := Num 10000000000\<rparr>)
     = ([Goto (str ''https://ex.test/toc''), Wait 500, Goto (str ''https://ex.test/u'')],
        Inl SleepOverflow)"
proof -
  let ?w = "world0 (Loaded [Some (str ''/u''), Some (str ''/v'')]) Timeout"
  let ?a = "args0\<lparr>min_delay := Num 10000000000\<rparr>"
  have t: "toc_page ?w = Loaded [Some (str ''/u''), Some (str ''/v'')]" by (simp add: world0_def)
  have l: "collect_links [Some (str ''/u''), Some (str ''/v'')] \<noteq> []"
    by (simp add: collect_links_uv)
  have a: "\<not> dry_run ?a" "wait_after_load ?a = 500" "toc ?a = str ''https://ex.test/toc''"
    "retries ?a = 2" "max_chapters ?a = 20"
    by (simp_all add: args0_def)
  have r: "raises (visit_at ?w (navs s) u)" for s u by (simp add: world0_def raises_def)
  have g: "int (Suc 0) \<le> retries ?a" by (simp add: args0_def)
  have d: "min_d ?a = Num 10000000000" "max_d ?a = Num 10000000000"
    by (simp_all add: min_d_def max_d_def pymax_def args0_def)
  have z: "sleep_polite lib0 ?w (min_d ?a) (max_d ?a) s = None" for s
    by (simp add: d sleep_polite_def pymax_def world0_def lib0_def)
  have c: "cli_chapters lib0 ?w ?a
             [(1, str ''https://ex.test/u''), (2, str ''https://ex.test/v'')]
             (st0\<lparr>trace := [Goto (str ''https://ex.test/toc''), Wait 500]\<rparr>)
           = ([Crashed],
              \<lparr>trace = [Goto (str ''https://ex.test/toc''), Wait 500,
                        Goto (str ''https://ex.test/u'')],
               navs = 1, draws = 0\<rparr>)"
    by (simp add: cli_chapters_crash cli_chapter_crash[OF r g z] st0_def)
  have c': "cli_chapters lib0 ?w ?a
             (enumerate1 (take (nat (max 1 (max_chapters ?a)))
                (map (absolute lib0 (str ''https://ex.test''))
                   (collect_links [Some (str ''/u''), Some (str ''/v'')]))))
             (st0\<lparr>trace := Goto (toc ?a)
                 # (if wait_after_load ?a \<noteq> 0 then [Wait (wait_after_load ?a)] else [])\<rparr>)
           = ([Crashed],
              \<lparr>trace = [Goto (str ''https://ex.test/toc''), Wait 500,
                        Goto (str ''https://ex.test/u'')],
               navs = 1, draws = 0\<rparr>)"
    using c by (simp add: a collect_links_uv lib0_absolute_u lib0_absolute_v enumerate1_two)
  show ?thesis
    using cli_main_run[OF lib0_valid t l lib0_base a(1) c'] a(4) by simp
qed

section \<open>A chapter page without content\<close>

text \<open>
  \<^verbatim>\<open>toc_playwright.py\<close> raises when the content selector gives nothing (\<^verbatim>\<open>if not body\<close>): the
  chapter fails and nothing is saved.
\<close>

lemma gui_chapter_content_missing:
  assumes "visit_at w (navs s) url = Page t b" and "or_else b [] = []"
  shows "fst (gui_chapter L w incl ads dmin dmax idx url s) = Failed 1
     \<and> filter saves (trace (snd (gui_chapter L w incl ads dmin dmax idx url s)))
         = filter saves (trace s)"
  using assms by (simp add: gui_chapter_def Let_def)

lemma decimal_digit: "n < 10 \<Longrightarrow> decimal n = [48 + n]"
  by (simp add: decimal.simps)

lemma clean_text_empty: "clean_text W [] r s = []"
  by (simp add: clean_text_def strip_def)

lemma safe_filename_cli_T: "safe_filename_cli (str ''T'') = str ''T''"
  by (simp add: safe_filename_cli_def str_def strip_def rmatch_once rmatch_many1_last
      tab_nl_cr_def reserved_def isspace_def)

text \<open>
  C2. \<^verbatim>\<open>cli_runner.py\<close> replaces an absent content by the empty string (\<^verbatim>\<open>or ""\<close>) and saves
  the chapter: the visit below ends as \<open>Extracted\<close> with an empty text, and the chapter file
  and the block of the combined transcript are written.
\<close>

theorem cli_saves_chapter_without_content:
  "fst (cli_chapter lib0 (world0 (Loaded []) (Page (Some (str ''T'')) None)) args0 5
          (str ''u'') 0 st0)
     = Extracted (str ''T'') [] (str ''u'')
   \<and> filter saves (trace (snd (cli_chapter lib0 (world0 (Loaded []) (Page (Some (str ''T'')) None))
          args0 5 (str ''u'') 0 st0)))
     = [WriteFile (str ''005 - T.txt'') (str ''T'' @ [NL, NL, NL]),
        Combined (str ''T'' @ [NL, NL, NL, NL] @ replicate 80 45 @ [NL, NL])]"
proof -
  have v: "visit_at (world0 (Loaded []) (Page (Some (str ''T'')) None)) (navs st0) (str ''u'')
           = Page (Some (str ''T'')) None"
    by (simp add: world0_def)
  have t: "or_else (Some (str ''T'')) (str ''chapter_'' @ decimal 5) = str ''T''"
    by (simp add: or_else_def str_def)
  have n: "chapter_file_name 5 (str ''T'') = str ''005 - T.txt''"
    by (simp add: chapter_file_name_def fmt03_def decimal_digit str_def numeral_2_eq_2)
  show ?thesis
    unfolding cli_chapter_page[OF v] t
    by (simp add: Let_def safe_filename_cli_T or_else_def clean_text_empty save_events_def n
        file_body_def combined_block_def source_block_def args0_def st0_def)
qed

section \<open>Pacing between chapters\<close>

text \<open>
  \<^verbatim>\<open>cli_runner.py\<close>: what the retry loop adds to the trace does not end with a pacing step
  (\<open>cli_chapter_events\<close>); the loop over the links then adds exactly one, whether the chapter
  was extracted or given up (\<open>cli_chapters_step\<close>: the next link starts from the state
  \<^verbatim>\<open>sleep_polite\<close> leaves).
\<close>

text \<open>\<^verbatim>\<open>toc_playwright.py\<close>: a visit that raises ends the chapter at once, with no pacing step.\<close>

lemma gui_chapter_raises:
  assumes "raises (visit_at w (navs s) url)"
  shows "gui_chapter L w incl ads dmin dmax idx url s
         = (Failed 1, s\<lparr>trace := trace s @ [Goto url], navs := navs s + 1\<rparr>)"
  using assms by (auto simp: gui_chapter_def Let_def raises_def split: visit.splits)

lemma gui_chapters_step:
  "gui_chapters L w incl ads dmin dmax ((idx, url) # rest) s =
     (if \<not> is_running w idx then ([], s)
      else (fst (gui_chapter L w incl ads dmin dmax idx url s)
              # fst (gui_chapters L w incl ads dmin dmax rest
                       (snd (gui_chapter L w incl ads dmin dmax idx url s))),
            snd (gui_chapters L w incl ads dmin dmax rest
                   (snd (gui_chapter L w incl ads dmin dmax idx url s)))))"
  by (simp add: Let_def split: prod.splits)

declare gui_chapters.simps(2) [simp del]

lemma links_example:
  "enumerate1 (py_slice_to 20 (map (absolute lib0 (str ''https://ex.test''))
       (collect_links [Some (str ''/u''), Some (str ''/v'')])))
   = [(1, str ''https://ex.test/u''), (2, str ''https://ex.test/v'')]"
  by (simp add: enumerate1_def py_slice_to_def absolute_def collect_links_def
      List.map_filter_def startswith_def lib0_def str_def upt_rec)

text \<open>
  C5. A run of \<^verbatim>\<open>toc_playwright.py\<close> over two links whose visits time out: the second page is
  opened right after the first, with no pacing step between them.
\<close>

theorem gui_no_pacing_after_failure:
  "run_extraction lib0 (world0 (Loaded [Some (str ''/u''), Some (str ''/v'')]) Timeout) gui0
   = ([Goto (str ''https://ex.test/u''), Goto (str ''https://ex.test/v'')],
      Inr (Finished [Failed 1, Failed 1]))"
proof -
  let ?w = "world0 (Loaded [Some (str ''/u''), Some (str ''/v'')]) Timeout"
  have r: "\<And>n u. raises (visit_at ?w n u)" by (simp add: world0_def raises_def)
  have run: "\<And>i. is_running ?w i" by (simp add: world0_def)
  have c: "gui_chapters lib0 ?w incl ads dmin dmax
             [(1, str ''https://ex.test/u''), (2, str ''https://ex.test/v'')] st0
           = ([Failed 1, Failed 1],
              \<lparr>trace = [Goto (str ''https://ex.test/u''), Goto (str ''https://ex.test/v'')],
               navs = 2, draws = 0\<rparr>)" for incl ads dmin dmax
    by (simp add: gui_chapters_step gui_chapter_raises[OF r] run st0_def)
  have b: "base_url lib0 (strip (toc_url_var gui0)) = Some (str ''https://ex.test'')"
    by (simp add: base_url_def lib0_def str_def)
  have l: "collect_links [Some (str ''/u''), Some (str ''/v'')] \<noteq> []"
    by (simp add: collect_links_def List.map_filter_def str_def)
  have t: "toc_page ?w = Loaded [Some (str ''/u''), Some (str ''/v'')]" by (simp add: world0_def)
  have m: "max_count_var gui0 = 20" by (simp add: gui0_def)
  show ?thesis
    unfolding run_extraction_def t
    by (simp add: l b m Let_def links_example c[unfolded One_nat_def])
qed

section \<open>Validation of the TOC URL\<close>

text \<open>
  \<^verbatim>\<open>cli_runner.py\<close>: \<^verbatim>\<open>main\<close> ends with \<open>InvalidTocUrl\<close> and an empty trace exactly when the scheme
  is neither \<^verbatim>\<open>http\<close> nor \<^verbatim>\<open>https\<close> or the network location is empty (or \<^verbatim>\<open>urlparse\<close> raises).
\<close>

lemma is_valid_url_iff:
  "is_valid_url L u \<longleftrightarrow>
     (\<exists>scheme netloc. urlparse L u = Some (scheme, netloc)
        \<and> (scheme = str ''http'' \<or> scheme = str ''https'') \<and> netloc \<noteq> [])"
  by (auto simp: is_valid_url_def split: option.splits)

lemma cli_main_invalid:
  "\<not> is_valid_url L (toc a) \<Longrightarrow> cli_main L w a = ([], Inl InvalidTocUrl)"
  by (simp add: cli_main_def)

lemma cli_main_valid:
  "is_valid_url L (toc a) \<Longrightarrow> snd (cli_main L w a) \<noteq> Inl InvalidTocUrl"
  by (auto simp: cli_main_def Let_def split: toc_load.splits option.splits prod.splits)

text \<open>
  C6. \<^verbatim>\<open>toc_playwright.py\<close> only checks that the TOC URL starts with \<^verbatim>\<open>http\<close>: a URL of scheme
  \<^verbatim>\<open>httpx\<close> and a URL without a host both pass \<^verbatim>\<open>_validate_basic_inputs\<close>, and
  \<^verbatim>\<open>launch_browser\<close> opens them.
\<close>

theorem gui_opens_invalid_toc_url:
  "validate_basic_inputs (gui0\<lparr>toc_url_var := str ''httpx://example.org''\<rparr>)
   \<and> launch_browser (world0 LoadFailure Timeout) (gui0\<lparr>toc_url_var := str ''httpx://example.org''\<rparr>)
       = ([Goto (str ''httpx://example.org'')], Inl TocLoadFailed)
   \<and> validate_basic_inputs (gui0\<lparr>toc_url_var := str ''http://''\<rparr>)
   \<and> launch_browser (world0 LoadFailure Timeout) (gui0\<lparr>toc_url_var := str ''http://''\<rparr>)
       = ([Goto (str ''http://'')], Inl TocLoadFailed)"
  by (simp add: launch_browser_def validate_basic_inputs_def world0_def gui0_def
      str_def strip_def isspace_def startswith_def)

section \<open>Running the loops on sample inputs\<close>

lemma cli_chapter_raise:
  assumes "raises (visit_at w (navs s) url)"
  shows "cli_chapter L w a i url n s =
     (if int (Suc n) \<le> retries a
      then (case sleep_polite L w (min_d a) (max_d a)
                   (s\<lparr>trace := trace s @ [Goto url], navs := navs s + 1\<rparr>) of
              None \<Rightarrow> (Crashed, s\<lparr>trace := trace s @ [Goto url], navs := navs s + 1\<rparr>)
            | Some s2 \<Rightarrow> cli_chapter L w a i url (Suc n) s2)
      else (Failed (Suc n), s\<lparr>trace := trace s @ [Goto url], navs := navs s + 1\<rparr>))"
proof (cases "int (Suc n) \<le> retries a")
  case False
  show ?thesis using cli_chapter_give_up[OF assms False] False by simp
next
  case True
  show ?thesis
  proof (cases "sleep_polite L w (min_d a) (max_d a)
                  (s\<lparr>trace := trace s @ [Goto url], navs := navs s + 1\<rparr>)")
    case None
    show ?thesis using cli_chapter_crash[OF assms True None] True None by simp
  next
    case (Some s')
    show ?thesis using cli_chapter_retry[OF assms True Some] True Some by simp
  qed
qed

lemma cli_chapters_link:
  "cli_chapters L w a ((i, url) # rest) s =
     (if fst (cli_chapter L w a i url 0 s) = Crashed
      then ([Crashed], snd (cli_chapter L w a i url 0 s))
      else (case sleep_polite L w (min_d a) (max_d a) (snd (cli_chapter L w a i url 0 s)) of
              None \<Rightarrow> ([fst (cli_chapter L w a i url 0 s), Crashed],
                        snd (cli_chapter L w a i url 0 s))
            | Some s2 \<Rightarrow> (fst (cli_chapter L w a i url 0 s) # fst (cli_chapters L w a rest s2),
                          snd (cli_chapters L w a rest s2))))"
  by (simp add: cli_chapters.simps(2) Let_def case_prod_unfold split: option.splits)

text \<open>With the draw of \<open>world0\<close>, \<^verbatim>\<open>sleep_polite\<close> sleeps the lower bound; the default is 1.2 seconds.\<close>

lemma default_delays: "min_d args0 = Num (12 / 10)" "max_d args0 = Num (25 / 10)"
  by (simp_all add: min_d_def max_d_def pymax_def args0_def)

lemma sleep_polite_world0:
  "0 < x \<Longrightarrow> x \<le> 9223372036 \<Longrightarrow>
   sleep_polite lib0 (world0 pg v) (Num x) hi_d s
   = Some (s\<lparr>trace := trace s @ [Pace x], draws := draws s + 1\<rparr>)"
  by (simp add: sleep_polite_def pymax_def world0_def lib0_def)

lemma world0_raises:
  "raises v \<Longrightarrow> raises (visit_at (world0 pg v) k u)"
  by (simp add: world0_def)

lemma world0_running: "is_running (world0 pg v) i"
  by (simp add: world0_def)

lemma cli_gives_up_example:
  assumes "raises v"
  shows "cli_chapters lib0 (world0 pg v) args0 [(1, u)] (st0\<lparr>trace := tr\<rparr>)
     = ([Failed 3],
        \<lparr>trace = tr @ [Goto u, Pace (12 / 10), Goto u, Pace (12 / 10), Goto u, Pace (12 / 10)],
         navs = 3, draws = 3\<rparr>)"
proof -
  have r: "retries args0 = 2" by (simp add: args0_def)
  show ?thesis
    by (simp add: cli_chapters_link cli_chapter_raise[OF world0_raises[OF assms]] r
        default_delays sleep_polite_world0 st0_def)
qed

text \<open>
  With the default options, two links whose visits time out are each visited 3 times and
  given up, with a pause after every visit.
\<close>

lemma cli_two_links_given_up:
  "cli_main lib0 (world0 (Loaded [Some (str ''/u''), Some (str ''/v'')]) Timeout) args0
   = ([Goto (str ''https://ex.test/toc''), Wait 500,
       Goto (str ''https://ex.test/u''), Pace (12 / 10),
       Goto (str ''https://ex.test/u''), Pace (12 / 10),
       Goto (str ''https://ex.test/u''), Pace (12 / 10),
       Goto (str ''https://ex.test/v''), Pace (12 / 10),
       Goto (str ''https://ex.test/v''), Pace (12 / 10),
       Goto (str ''https://ex.test/v''), Pace (12 / 10)],
      Inr (Finished [Failed 3, Failed 3]))"
proof -
  let ?w = "world0 (Loaded [Some (str ''/u''), Some (str ''/v'')]) Timeout"
  have t: "toc_page ?w = Loaded [Some (str ''/u''), Some (str ''/v'')]" by (simp add: world0_def)
  have l: "collect_links [Some (str ''/u''), Some (str ''/v'')] \<noteq> []"
    by (simp add: collect_links_uv)
  have a: "\<not> dry_run args0" "wait_after_load args0 = 500"
    "toc args0 = str ''https://ex.test/toc''" "retries args0 = 2" "max_chapters args0 = 20"
    by (simp_all add: args0_def)
  have f: "raises Timeout" by (simp add: raises_def)
  have c: "cli_chapters lib0 ?w args0
             (enumerate1 (take (nat (max 1 (max_chapters args0)))
                (map (absolute lib0 (str ''https://ex.test''))
                   (collect_links [Some (str ''/u''), Some (str ''/v'')]))))
             (st0\<lparr>trace := Goto (toc args0)
                 # (if wait_after_load args0 \<noteq> 0 then [Wait (wait_after_load args0)] else [])\<rparr>)
           = ([Failed 3, Failed 3],
              \<lparr>trace = [Goto (str ''https://ex.test/toc''), Wait 500,
                 Goto (str ''https://ex.test/u''), Pace (12 / 10),
                 Goto (str ''https://ex.test/u''), Pace (12 / 10),
                 Goto (str ''https://ex.test/u''), Pace (12 / 10),
                 Goto (str ''https://ex.test/v''), Pace (12 / 10),
                 Goto (str ''https://ex.test/v''), Pace (12 / 10),
                 Goto (str ''https://ex.test/v''), Pace (12 / 10)],
               navs = 6, draws = 6\<rparr>)"
    by (simp add: a collect_links_uv lib0_absolute_u lib0_absolute_v enumerate1_two
        cli_chapters_link cli_chapter_raise[OF world0_raises[OF f]]
        default_delays sleep_polite_world0 st0_def)
  show ?thesis using cli_main_run[OF lib0_valid t l lib0_base a(1) c] by simp
qed

section \<open>Link resolution\<close>

lemma collect_links_filter:
  "map Some (collect_links hrefs) = filter (\<lambda>h. h \<noteq> None \<and> h \<noteq> Some []) hrefs"
  by (induction hrefs) (auto simp: collect_links_def List.map_filter_def split: option.splits)

lemma enumerate1_fst: "map fst (enumerate1 xs) = [1..<Suc (length xs)]"
  unfolding enumerate1_def by (rule map_fst_zip) (simp del: upt_Suc)

lemma enumerate1_snd: "map snd (enumerate1 xs) = xs"
  unfolding enumerate1_def by (rule map_snd_zip) (simp del: upt_Suc)

lemma enumerate1_length: "length (enumerate1 xs) = length xs"
  using enumerate1_snd[of xs] by (metis length_map)

lemma cli_main_dry_run:
  assumes "urlparse L (toc a) = Some (scheme, netloc)"
    and "scheme = str ''http'' \<or> scheme = str ''https''" and "netloc \<noteq> []"
    and "toc_page w = Loaded hrefs" and "dry_run a" and "collect_links hrefs \<noteq> []"
  shows "snd (cli_main L w a) =
     Inr (DryRun (enumerate1 (take (nat (max 1 (max_chapters a)))
        (map (absolute L (scheme @ str ''://'' @ netloc)) (collect_links hrefs)))))"
proof -
  have v: "is_valid_url L (toc a)" using assms(1,2,3) by (auto simp: is_valid_url_def)
  have b: "base_url L (toc a) = Some (scheme @ str ''://'' @ netloc)"
    using assms(1) by (simp add: base_url_def)
  show ?thesis using v b assms(4,5,6) by (simp add: cli_main_def Let_def)
qed

lemma example_hrefs:
  "collect_links [Some (str ''/c/1''), Some (str ''https://ex.test/c/2''), Some [], None]
   = [str ''/c/1'', str ''https://ex.test/c/2'']"
  by (simp add: collect_links_def List.map_filter_def str_def)

lemma example_absolute:
  "absolute L base (str ''/c/1'') = urljoin L base (str ''/c/1'')"
  "absolute L base (str ''https://ex.test/c/2'') = str ''https://ex.test/c/2''"
  by (simp_all add: absolute_def startswith_def str_def)

text \<open>
  With a valid TOC URL, the links \<^verbatim>\<open>main\<close> resolves (the list a dry run prints) are: the hrefs
  that are neither \<^verbatim>\<open>null\<close> nor empty, in their order; each taken as it is when it starts
  with \<^verbatim>\<open>http\<close> and joined to \<^verbatim>\<open>scheme://netloc\<close> of the TOC URL otherwise; cut to
  \<^verbatim>\<open>max(1, args.max)\<close>; numbered from 1.
\<close>

lemma cli_resolved_links:
  assumes "urlparse L (toc a) = Some (scheme, netloc)"
    and "scheme = str ''http'' \<or> scheme = str ''https''" and "netloc \<noteq> []"
    and "toc_page w = Loaded hrefs" and "dry_run a" and "collect_links hrefs \<noteq> []"
  shows "\<exists>links. snd (cli_main L w a) = Inr (DryRun links)
             \<and> map fst links = [1..<Suc (length links)]
             \<and> map snd links = take (nat (max 1 (max_chapters a)))
                 (map (\<lambda>l. if startswith l (str ''http'') then l
                           else urljoin L (scheme @ str ''://'' @ netloc) l)
                    (collect_links hrefs))"
proof -
  define links where "links = enumerate1 (take (nat (max 1 (max_chapters a)))
        (map (absolute L (scheme @ str ''://'' @ netloc)) (collect_links hrefs)))"
  have "snd (cli_main L w a) = Inr (DryRun links)"
    unfolding links_def using assms by (rule cli_main_dry_run)
  moreover have "map fst links = [1..<Suc (length links)]"
    by (simp add: links_def enumerate1_fst enumerate1_length)
  moreover have "map snd links = take (nat (max 1 (max_chapters a)))
                 (map (\<lambda>l. if startswith l (str ''http'') then l
                           else urljoin L (scheme @ str ''://'' @ netloc) l)
                    (collect_links hrefs))"
    by (simp add: links_def enumerate1_snd absolute_def[abs_def])
  ultimately show ?thesis by blast
qed

text \<open>The example of the specification: its two links come out as it says.\<close>

lemma cli_resolved_links_example:
  "snd (cli_main lib0
          (world0 (Loaded [Some (str ''/c/1''), Some (str ''https://ex.test/c/2''), Some [], None])
             Timeout)
          (args0\<lparr>dry_run := True\<rparr>))
   = Inr (DryRun [(1, str ''https://ex.test/c/1''), (2, str ''https://ex.test/c/2'')])"
proof -
  let ?w = "world0 (Loaded [Some (str ''/c/1''), Some (str ''https://ex.test/c/2''), Some [], None])
             Timeout"
  let ?a = "args0\<lparr>dry_run := True\<rparr>"
  have 1: "urlparse lib0 (toc ?a) = Some (str ''https'', str ''ex.test'')" by (simp add: lib0_def)
  have 2: "str ''https'' = str ''http'' \<or> str ''https'' = str ''https''" by simp
  have 3: "str ''ex.test'' \<noteq> []" by (simp add: str_def)
  have 4: "toc_page ?w
           = Loaded [Some (str ''/c/1''), Some (str ''https://ex.test/c/2''), Some [], None]"
    by (simp add: world0_def)
  have 5: "dry_run ?a" by simp
  have 6: "collect_links [Some (str ''/c/1''), Some (str ''https://ex.test/c/2''), Some [], None]
           \<noteq> []" by (simp add: example_hrefs)
  have 7: "urljoin lib0 (str ''https'' @ str ''://'' @ str ''ex.test'') (str ''/c/1'')
           = str ''https://ex.test/c/1''"
    by (simp add: lib0_def str_def startswith_def)
  have 8: "take (nat (max 1 (max_chapters ?a))) [x, y] = [x, y]" for x y :: ustr
    by (simp add: args0_def)
  show ?thesis
    unfolding cli_main_dry_run[OF 1 2 3 4 5 6]
    by (simp only: example_hrefs list.map example_absolute 7 8 enumerate1_two)
qed

text \<open>
  C4. The test the code makes is \<^verbatim>\<open>l.startswith("http")\<close>, not whether the href is relative: on
  a TOC page of \<^verbatim>\<open>https://ex.test\<close> whose links are \<^verbatim>\<open>/c/1\<close> and the relative \<^verbatim>\<open>http-intro.html\<close>,
  the dry run of \<^verbatim>\<open>cli_runner.py\<close> lists the second href as it is, where \<^verbatim>\<open>urljoin\<close> with the
  origin gives \<^verbatim>\<open>https://ex.test/http-intro.html\<close>; and both programs then call \<^verbatim>\<open>page.goto\<close>
  on the bare href, which fails.
\<close>

theorem relative_href_not_joined:
  "snd (cli_main lib0
          (world0 (Loaded [Some (str ''/c/1''), Some (str ''http-intro.html'')]) Failure)
          (args0\<lparr>dry_run := True\<rparr>))
     = Inr (DryRun [(1, str ''https://ex.test/c/1''), (2, str ''http-intro.html'')])
   \<and> urljoin lib0 (str ''https://ex.test'') (str ''http-intro.html'')
     = str ''https://ex.test/http-intro.html''
   \<and> cli_main lib0 (world0 (Loaded [Some (str ''http-intro.html'')]) Failure) args0
     = ([Goto (str ''https://ex.test/toc''), Wait 500,
         Goto (str ''http-intro.html''), Pace (12 / 10),
         Goto (str ''http-intro.html''), Pace (12 / 10),
         Goto (str ''http-intro.html''), Pace (12 / 10)],
        Inr (Finished [Failed 3]))
   \<and> run_extraction lib0 (world0 (Loaded [Some (str ''http-intro.html'')]) Failure) gui0
     = ([Goto (str ''http-intro.html'')], Inr (Finished [Failed 1]))"
proof (intro conjI)
  let ?w = "world0 (Loaded [Some (str ''/c/1''), Some (str ''http-intro.html'')]) Failure"
  let ?a = "args0\<lparr>dry_run := True\<rparr>"
  have 1: "urlparse lib0 (toc ?a) = Some (str ''https'', str ''ex.test'')" by (simp add: lib0_def)
  have 2: "str ''https'' = str ''http'' \<or> str ''https'' = str ''https''" by simp
  have 3: "str ''ex.test'' \<noteq> []" by (simp add: str_def)
  have 4: "toc_page ?w = Loaded [Some (str ''/c/1''), Some (str ''http-intro.html'')]"
    by (simp add: world0_def)
  have 5: "dry_run ?a" by simp
  have c: "collect_links [Some (str ''/c/1''), Some (str ''http-intro.html'')]
           = [str ''/c/1'', str ''http-intro.html'']"
    by (simp add: collect_links_def List.map_filter_def str_def)
  have 6: "collect_links [Some (str ''/c/1''), Some (str ''http-intro.html'')] \<noteq> []"
    by (simp add: c)
  have 7: "absolute lib0 (str ''https'' @ str ''://'' @ str ''ex.test'') (str ''/c/1'')
           = str ''https://ex.test/c/1''"
    by (simp add: absolute_def lib0_def str_def startswith_def)
  have 8: "absolute lib0 (str ''https'' @ str ''://'' @ str ''ex.test'') (str ''http-intro.html'')
           = str ''http-intro.html''"
    by (simp add: absolute_def str_def startswith_def)
  have 9: "take (nat (max 1 (max_chapters ?a))) [x, y] = [x, y]" for x y :: ustr
    by (simp add: args0_def)
  show "snd (cli_main lib0 ?w ?a)
        = Inr (DryRun [(1, str ''https://ex.test/c/1''), (2, str ''http-intro.html'')])"
    unfolding cli_main_dry_run[OF 1 2 3 4 5 6]
    by (simp only: c list.map 7 8 9 enumerate1_two)
next
  show "urljoin lib0 (str ''https://ex.test'') (str ''http-intro.html'')
        = str ''https://ex.test/http-intro.html''"
    by (simp add: lib0_def str_def startswith_def)
next
  let ?w = "world0 (Loaded [Some (str ''http-intro.html'')]) Failure"
  have t: "toc_page ?w = Loaded [Some (str ''http-intro.html'')]" by (simp add: world0_def)
  have c: "collect_links [Some (str ''http-intro.html'')] = [str ''http-intro.html'']"
    by (simp add: collect_links_def List.map_filter_def str_def)
  have l: "collect_links [Some (str ''http-intro.html'')] \<noteq> []" by (simp add: c)
  have a: "\<not> dry_run args0" "wait_after_load args0 = 500"
    "toc args0 = str ''https://ex.test/toc''" "max_chapters args0 = 20"
    by (simp_all add: args0_def)
  have h: "absolute lib0 (str ''https://ex.test'') (str ''http-intro.html'')
           = str ''http-intro.html''"
    by (simp add: absolute_def str_def startswith_def)
  have f: "raises Failure" by (simp add: raises_def)
  have r: "cli_chapters lib0 ?w args0
             (enumerate1 (take (nat (max 1 (max_chapters args0)))
                (map (absolute lib0 (str ''https://ex.test''))
                   (collect_links [Some (str ''http-intro.html'')]))))
             (st0\<lparr>trace := Goto (toc args0)
                 # (if wait_after_load args0 \<noteq> 0 then [Wait (wait_after_load args0)] else [])\<rparr>)
           = ([Failed 3],
              \<lparr>trace = [Goto (str ''https://ex.test/toc''), Wait 500]
                  @ [Goto (str ''http-intro.html''), Pace (12 / 10),
                     Goto (str ''http-intro.html''), Pace (12 / 10),
                     Goto (str ''http-intro.html''), Pace (12 / 10)],
               navs = 3, draws = 3\<rparr>)"
    using cli_gives_up_example[OF f, of "Loaded [Some (str ''http-intro.html'')]"
        "str ''http-intro.html''" "[Goto (str ''https://ex.test/toc''), Wait 500]"]
    by (simp add: a c h enumerate1_one)
  show "cli_main lib0 ?w args0
     = ([Goto (str ''https://ex.test/toc''), Wait 500,
         Goto (str ''http-intro.html''), Pace (12 / 10),
         Goto (str ''http-intro.html''), Pace (12 / 10),
         Goto (str ''http-intro.html''), Pace (12 / 10)],
        Inr (Finished [Failed 3]))"
    using cli_main_run[OF lib0_valid t l lib0_base a(1) r] by simp
  have g: "gui_chapters lib0 ?w incl ads dmin dmax [(1, str ''http-intro.html'')] st0
           = ([Failed 1], \<lparr>trace = [Goto (str ''http-intro.html'')], navs = 1, draws = 0\<rparr>)"
    for incl ads dmin dmax
    by (simp add: gui_chapters_step gui_chapter_raises[OF world0_raises[OF f]]
        world0_running st0_def)
  have m: "max_count_var gui0 = 20" by (simp add: gui0_def)
  have e: "enumerate1 (py_slice_to 20 (map (absolute lib0 (str ''https://ex.test''))
              (collect_links [Some (str ''http-intro.html'')])))
           = [(1, str ''http-intro.html'')]"
    by (simp add: c h py_slice_to_def enumerate1_one)
  show "run_extraction lib0 ?w gui0
        = ([Goto (str ''http-intro.html'')], Inr (Finished [Failed 1]))"
    unfolding run_extraction_def t
    by (simp add: l lib0_base m Let_def e g[unfolded One_nat_def])
qed

section \<open>The pacing delays\<close>

subsection \<open>The clamps\<close>

lemma cli_clamps:
  assumes "min_delay a = Num x" and "max_delay a = Num y"
  shows "min_d a = Num (max 0 x)" and "max_d a = Num (max (max 0 x) y)"
  using assms by (auto simp: min_d_def max_d_def pymax_def)

lemma gui_clamps:
  assumes "min_delay_var g = Num x" and "max_delay_var g = Num y"
  shows "gui_min_d g = Num (max 0 x)" and "gui_max_d g = Num (max (max 0 x) y)"
  using assms by (auto simp: gui_min_d_def gui_max_d_def)

subsection \<open>\<^verbatim>\<open>cli_runner.py\<close>\<close>

lemma sleep_polite_range:
  assumes "uniform_in_range w" and "0 \<le> lo_d" and "lo_d \<le> hi_d"
    and "sleep_polite L w (Num lo_d) (Num hi_d) s = Some s'"
  shows "\<exists>d. s' = s\<lparr>trace := trace s @ [Pace d], draws := draws s + 1\<rparr> \<and> lo_d \<le> d \<and> d \<le> hi_d"
proof -
  obtain e where e: "uniform w (draws s) (Num lo_d) (Num hi_d) = Num e" "lo_d \<le> e" "e \<le> hi_d"
    using assms(1,3) unfolding uniform_in_range_def by blast
  have p: "pymax (Num 0) (Num e) = Num e" using e(2) assms(2) by (auto simp: pymax_def)
  obtain d where d: "s' = s\<lparr>trace := trace s @ [Pace d], draws := draws s + 1\<rparr>"
    "pymax (Num 0) (uniform w (draws s) (Num lo_d) (Num hi_d)) = Num d"
    using sleep_polite_Some[OF assms(4)] by blast
  have "d = e" using d(2) e(1) p by simp
  then show ?thesis using d(1) e(2,3) by blast
qed

lemma sleep_polite_accepts:
  assumes "uniform_in_range w" and "0 \<le> lo_d" and "lo_d \<le> hi_d" and "hi_d \<le> sleep_max L"
  shows "sleep_polite L w (Num lo_d) (Num hi_d) s \<noteq> None"
proof -
  obtain e where e: "uniform w (draws s) (Num lo_d) (Num hi_d) = Num e" "lo_d \<le> e" "e \<le> hi_d"
    using assms(1,3) unfolding uniform_in_range_def by blast
  have p: "pymax (Num 0) (Num e) = Num e" using e(2) assms(2) by (auto simp: pymax_def)
  have "e = 0 \<or> (0 < e \<and> e \<le> sleep_max L)" using e(2,3) assms(2,4) by auto
  then show ?thesis unfolding sleep_polite_def e(1) p by auto
qed

lemma paced_within_append:
  "paced_within lo_d hi_d (xs @ ys) \<longleftrightarrow> paced_within lo_d hi_d xs \<and> paced_within lo_d hi_d ys"
  by (auto simp: paced_within_def)

lemma paced_within_simps [simp]:
  "paced_within lo_d hi_d []"
  "paced_within lo_d hi_d (Goto u # tr) = paced_within lo_d hi_d tr"
  "paced_within lo_d hi_d (Wait m # tr) = paced_within lo_d hi_d tr"
  "paced_within lo_d hi_d (WriteFile n t # tr) = paced_within lo_d hi_d tr"
  "paced_within lo_d hi_d (Combined t # tr) = paced_within lo_d hi_d tr"
  "paced_within lo_d hi_d (Pace d # tr) = (lo_d \<le> d \<and> d \<le> hi_d \<and> paced_within lo_d hi_d tr)"
  by (auto simp: paced_within_def)

lemma cli_chapter_paced:
  assumes "uniform_in_range w" and "0 \<le> lo_d" and "lo_d \<le> hi_d"
    and "min_d a = Num lo_d" and "max_d a = Num hi_d"
  shows "paced_within lo_d hi_d (trace s) \<longrightarrow>
         paced_within lo_d hi_d (trace (snd (cli_chapter L w a i url n s)))"
proof (induction n s rule: cli_chapter_rounds[where w = w and url = url and a = a and L = L])
  case (Page n s t b)
  show ?case unfolding cli_chapter_page[OF Page]
    by (simp add: Let_def save_events_def paced_within_append)
next
  case (GiveUp n s)
  show ?case unfolding cli_chapter_give_up[OF GiveUp] by (simp add: paced_within_append)
next
  case (Crash n s)
  show ?case unfolding cli_chapter_crash[OF Crash] by (simp add: paced_within_append)
next
  case (Retry n s s')
  obtain d where d: "s' = (s\<lparr>trace := trace s @ [Goto url], navs := navs s + 1\<rparr>)
                          \<lparr>trace := trace (s\<lparr>trace := trace s @ [Goto url], navs := navs s + 1\<rparr>)
                                      @ [Pace d],
                           draws := draws (s\<lparr>trace := trace s @ [Goto url], navs := navs s + 1\<rparr>) + 1\<rparr>"
    "lo_d \<le> d" "d \<le> hi_d"
    using sleep_polite_range[OF assms(1,2,3) Retry(3)[unfolded assms(4,5)]] by blast
  have "paced_within lo_d hi_d (trace s) \<Longrightarrow> paced_within lo_d hi_d (trace s')"
    using d by (simp add: paced_within_append)
  then show ?case unfolding cli_chapter_retry[OF Retry(1,2,3)] using Retry(4) by blast
qed

lemma cli_chapters_paced:
  assumes "uniform_in_range w" and "0 \<le> lo_d" and "lo_d \<le> hi_d"
    and "min_d a = Num lo_d" and "max_d a = Num hi_d"
  shows "paced_within lo_d hi_d (trace s) \<Longrightarrow>
         paced_within lo_d hi_d (trace (snd (cli_chapters L w a links s)))"
proof (induction links arbitrary: s)
  case Nil
  then show ?case by simp
next
  case (Cons p links)
  obtain i url where p: "p = (i, url)" by (cases p)
  have c: "paced_within lo_d hi_d (trace (snd (cli_chapter L w a i url 0 s)))"
    using cli_chapter_paced[OF assms] Cons.prems by blast
  show ?case
  proof (cases "fst (cli_chapter L w a i url 0 s) = Crashed")
    case True
    show ?thesis unfolding p cli_chapters_crash[OF True] using c by simp
  next
    case False
    show ?thesis
    proof (cases "sleep_polite L w (min_d a) (max_d a) (snd (cli_chapter L w a i url 0 s))")
      case None
      show ?thesis unfolding p cli_chapters_pace_crash[OF False None] using c by simp
    next
      case (Some s')
      obtain d where "s' = (snd (cli_chapter L w a i url 0 s))
                             \<lparr>trace := trace (snd (cli_chapter L w a i url 0 s)) @ [Pace d],
                              draws := draws (snd (cli_chapter L w a i url 0 s)) + 1\<rparr>"
        "lo_d \<le> d" "d \<le> hi_d"
        using sleep_polite_range[OF assms(1,2,3) Some[unfolded assms(4,5)]] by blast
      then have "paced_within lo_d hi_d (trace s')" using c by (simp add: paced_within_append)
      then show ?thesis unfolding p cli_chapters_step[OF False Some] using Cons.IH by simp
    qed
  qed
qed

lemma cli_main_paced:
  assumes "uniform_in_range w" and "0 \<le> lo_d" and "lo_d \<le> hi_d"
    and "min_d a = Num lo_d" and "max_d a = Num hi_d"
  shows "paced_within lo_d hi_d (fst (cli_main L w a))"
proof -
  have h: "paced_within lo_d hi_d (trace s) \<Longrightarrow>
           paced_within lo_d hi_d (trace (snd (cli_chapters L w a links s)))" for links s
    by (rule cli_chapters_paced[OF assms])
  show ?thesis
    by (auto simp: cli_main_def Let_def case_prod_unfold st0_def
        split: toc_load.splits option.splits intro!: h)
qed

text \<open>With pauses that \<^verbatim>\<open>time.sleep\<close> accepts, the run does not end in \<^verbatim>\<open>OverflowError\<close>.\<close>

lemma cli_chapter_not_crashed:
  assumes "\<And>s. sleep_polite L w (min_d a) (max_d a) s \<noteq> None"
  shows "fst (cli_chapter L w a i url n s) \<noteq> Crashed"
proof (induction n s rule: cli_chapter_rounds[where w = w and url = url and a = a and L = L])
  case (Page n s t b)
  show ?case unfolding cli_chapter_page[OF Page] by (simp add: Let_def)
next
  case (GiveUp n s)
  show ?case unfolding cli_chapter_give_up[OF GiveUp] by simp
next
  case (Crash n s)
  then show ?case using assms by blast
next
  case (Retry n s s')
  show ?case unfolding cli_chapter_retry[OF Retry(1,2,3)] by (rule Retry(4))
qed

lemma cli_chapters_not_crashed:
  assumes "\<And>s. sleep_polite L w (min_d a) (max_d a) s \<noteq> None"
  shows "Crashed \<notin> set (fst (cli_chapters L w a links s))
         \<and> length (fst (cli_chapters L w a links s)) = length links
         \<and> length (filter paces (trace s)) + length links
             \<le> length (filter paces (trace (snd (cli_chapters L w a links s))))"
proof (induction links arbitrary: s)
  case Nil
  show ?case by simp
next
  case (Cons p links)
  obtain i url where p: "p = (i, url)" by (cases p)
  have f: "fst (cli_chapter L w a i url 0 s) \<noteq> Crashed"
    by (rule cli_chapter_not_crashed[OF assms])
  obtain s' where s': "sleep_polite L w (min_d a) (max_d a) (snd (cli_chapter L w a i url 0 s))
                       = Some s'" using assms by blast
  obtain evs where evs: "trace (snd (cli_chapter L w a i url 0 s)) = trace s @ Goto url # evs"
    using cli_chapter_events by blast
  obtain d where d: "trace s' = trace (snd (cli_chapter L w a i url 0 s)) @ [Pace d]"
    using sleep_polite_trace[OF s'] by blast
  have "length (filter paces (trace s)) + 1 \<le> length (filter paces (trace s'))"
    using evs d by simp
  then show ?case unfolding p cli_chapters_step[OF f s'] using Cons.IH[of s'] f by auto
qed

lemma cli_main_not_rejected:
  assumes "\<And>s. sleep_polite L w (min_d a) (max_d a) s \<noteq> None"
  shows "snd (cli_main L w a) \<noteq> Inl SleepOverflow"
    and "snd (cli_main L w a) = Inr (Finished rs) \<Longrightarrow>
         length rs \<le> length (filter paces (fst (cli_main L w a)))"
proof -
  note c = cli_chapters_not_crashed[OF assms]
  show "snd (cli_main L w a) \<noteq> Inl SleepOverflow"
    using c by (auto simp: cli_main_def Let_def case_prod_unfold
        split: toc_load.splits option.splits)
  show "length rs \<le> length (filter paces (fst (cli_main L w a)))"
    if "snd (cli_main L w a) = Inr (Finished rs)"
    using that c
    by (auto simp: cli_main_def Let_def case_prod_unfold
        split: toc_load.splits option.splits if_splits
        intro: order_trans[OF _ conjunct2[OF conjunct2[OF c]]])
qed

subsection \<open>\<^verbatim>\<open>toc_playwright.py\<close>\<close>

lemma py_int_mono: "x \<le> y \<Longrightarrow> py_int x \<le> py_int y"
proof -
  assume xy: "x \<le> y"
  show ?thesis
  proof (cases "0 \<le> x")
    case True
    then show ?thesis using xy by (simp add: py_int_def floor_mono)
  next
    case False
    show ?thesis
    proof (cases "0 \<le> y")
      case True
      have "\<lceil>x\<rceil> \<le> 0" using False by (simp add: ceiling_le_iff)
      moreover have "0 \<le> \<lfloor>y\<rfloor>" using True by simp
      ultimately have "\<lceil>x\<rceil> \<le> \<lfloor>y\<rfloor>" by (rule order_trans)
      then show ?thesis using False True by (simp add: py_int_def)
    next
      case y: False
      show ?thesis using False y xy by (simp add: py_int_def ceiling_mono)
    qed
  qed
qed

text \<open>Without rounding, \<^verbatim>\<open>int(d * 1000)\<close> is the truncated exact product.\<close>

lemma ms_of_lib0: "ms_of lib0 (Num d) = Some (py_int (d * 1000))"
  by (simp add: ms_of_def times1000_def float_to_int_def lib0_def)

lemma ms_in_order_lib0: "ms_in_order lib0 lo_d hi_d"
  by (simp add: ms_in_order_def ms_of_lib0 py_int_mono)

lemma uniform_in_range_world0: "uniform_in_range (world0 pg v)"
  by (simp add: uniform_in_range_def world0_def)

text \<open>A chapter page with content: the chapter is saved, then comes the pacing wait.\<close>

lemma gui_chapter_page:
  assumes "visit_at w (navs s) url = Page t b" and "or_else b [] \<noteq> []"
  shows "gui_chapter L w incl ads dmin dmax idx url s =
     (Extracted (safe_filename_gui (or_else t (str ''chapter_'' @ decimal idx)))
        (clean_text (alnum L) (or_else b []) (\<not> incl) ads) url,
      s\<lparr>trace := trace s @ [Goto url, Wait 500]
           @ save_events idx (safe_filename_gui (or_else t (str ''chapter_'' @ decimal idx))) incl
               url (clean_text (alnum L) (or_else b []) (\<not> incl) ads)
           @ (case ms_of L (uniform w (draws s) dmin dmax) of None \<Rightarrow> [] | Some ms \<Rightarrow> [Wait ms]),
        navs := navs s + 1, draws := draws s + 1\<rparr>)"
  using assms by (simp add: gui_chapter_def Let_def split: option.splits)

lemma gui_chapter_no_content:
  assumes "visit_at w (navs s) url = Page t b" and "or_else b [] = []"
  shows "gui_chapter L w incl ads dmin dmax idx url s =
     (Failed 1, s\<lparr>trace := trace s @ [Goto url, Wait 500], navs := navs s + 1\<rparr>)"
  using assms by (simp add: gui_chapter_def Let_def)

lemma gui_wait_range:
  assumes "uniform_in_range w" and "ms_in_order L lo_d hi_d" and "lo_d \<le> hi_d"
  shows "\<exists>ms lo_ms hi_ms. ms_of L (uniform w k (Num lo_d) (Num hi_d)) = Some ms
           \<and> ms_of L (Num lo_d) = Some lo_ms \<and> ms_of L (Num hi_d) = Some hi_ms
           \<and> lo_ms \<le> ms \<and> ms \<le> hi_ms"
proof -
  obtain e where e: "uniform w k (Num lo_d) (Num hi_d) = Num e" "lo_d \<le> e" "e \<le> hi_d"
    using assms(1,3) unfolding uniform_in_range_def by blast
  have "lo_d \<le> lo_d \<and> lo_d \<le> e \<and> e \<le> hi_d" using e by simp
  then obtain m n where 1: "ms_of L (Num lo_d) = Some m" "ms_of L (Num e) = Some n" "m \<le> n"
    using assms(2) unfolding ms_in_order_def by blast
  have "lo_d \<le> e \<and> e \<le> hi_d \<and> hi_d \<le> hi_d" using e by simp
  then obtain n' q where 2: "ms_of L (Num e) = Some n'" "ms_of L (Num hi_d) = Some q" "n' \<le> q"
    using assms(2) unfolding ms_in_order_def by blast
  have "n = n'" using 1(2) 2(1) by simp
  then show ?thesis using e(1) 1 2 by auto
qed

lemma waits_within_append:
  "waits_within lo_ms hi_ms (xs @ ys)
     \<longleftrightarrow> waits_within lo_ms hi_ms xs \<and> waits_within lo_ms hi_ms ys"
  by (auto simp: waits_within_def)

lemma waits_within_simps [simp]:
  "waits_within lo_ms hi_ms []"
  "waits_within lo_ms hi_ms (Goto u # tr) = waits_within lo_ms hi_ms tr"
  "waits_within lo_ms hi_ms (Pace d # tr) = waits_within lo_ms hi_ms tr"
  "waits_within lo_ms hi_ms (WriteFile n t # tr) = waits_within lo_ms hi_ms tr"
  "waits_within lo_ms hi_ms (Combined t # tr) = waits_within lo_ms hi_ms tr"
  "waits_within lo_ms hi_ms (Wait m # tr)
     = ((m = 500 \<or> (lo_ms \<le> m \<and> m \<le> hi_ms)) \<and> waits_within lo_ms hi_ms tr)"
  by (auto simp: waits_within_def)

lemma gui_chapter_waits:
  assumes "uniform_in_range w" and "ms_in_order L lo_d hi_d" and "lo_d \<le> hi_d"
    and "ms_of L (Num lo_d) = Some lo_ms" and "ms_of L (Num hi_d) = Some hi_ms"
    and "waits_within lo_ms hi_ms (trace s)"
  shows "waits_within lo_ms hi_ms
           (trace (snd (gui_chapter L w incl ads (Num lo_d) (Num hi_d) idx url s)))"
proof (cases "raises (visit_at w (navs s) url)")
  case True
  show ?thesis unfolding gui_chapter_raises[OF True] using assms(6)
    by (simp add: waits_within_append)
next
  case False
  then obtain t b where v: "visit_at w (navs s) url = Page t b"
    by (auto simp: raises_def split: visit.splits)
  show ?thesis
  proof (cases "or_else b [] = []")
    case True
    show ?thesis unfolding gui_chapter_no_content[OF v True] using assms(6)
      by (simp add: waits_within_append)
  next
    case False
    obtain ms where "ms_of L (uniform w (draws s) (Num lo_d) (Num hi_d)) = Some ms"
      "lo_ms \<le> ms" "ms \<le> hi_ms"
      using gui_wait_range[OF assms(1,2,3), of "draws s"] assms(4,5) by auto
    then show ?thesis unfolding gui_chapter_page[OF v False] using assms(6)
      by (simp add: waits_within_append save_events_def)
  qed
qed

lemma gui_chapters_waits:
  assumes "uniform_in_range w" and "ms_in_order L lo_d hi_d" and "lo_d \<le> hi_d"
    and "ms_of L (Num lo_d) = Some lo_ms" and "ms_of L (Num hi_d) = Some hi_ms"
  shows "waits_within lo_ms hi_ms (trace s) \<Longrightarrow>
         waits_within lo_ms hi_ms
           (trace (snd (gui_chapters L w incl ads (Num lo_d) (Num hi_d) links s)))"
proof (induction links arbitrary: s)
  case Nil
  then show ?case by simp
next
  case (Cons p links)
  obtain i url where p: "p = (i, url)" by (cases p)
  have "waits_within lo_ms hi_ms
          (trace (snd (gui_chapter L w incl ads (Num lo_d) (Num hi_d) i url s)))"
    using gui_chapter_waits[OF assms Cons.prems] .
  then show ?case unfolding p gui_chapters_step using Cons.IH Cons.prems by simp
qed

lemma run_extraction_waits:
  assumes "uniform_in_range w" and "ms_in_order L lo_d hi_d" and "lo_d \<le> hi_d"
    and "ms_of L (Num lo_d) = Some lo_ms" and "ms_of L (Num hi_d) = Some hi_ms"
    and "gui_min_d g = Num lo_d" and "gui_max_d g = Num hi_d"
  shows "waits_within lo_ms hi_ms (fst (run_extraction L w g))"
proof -
  have h: "waits_within lo_ms hi_ms (trace s) \<Longrightarrow>
           waits_within lo_ms hi_ms
             (trace (snd (gui_chapters L w incl ads (Num lo_d) (Num hi_d) links s)))"
    for incl ads links s
    by (rule gui_chapters_waits[OF assms(1-5)])
  show ?thesis
    by (auto simp: run_extraction_def Let_def case_prod_unfold st0_def assms(6,7)
        split: toc_load.splits option.splits intro!: h)
qed

subsection \<open>Sample runs over one chapter page\<close>

lemma clean_text_x: "clean_text ascii_alnum (str ''x'') True True = str ''x''"
  unfolding clean_text_shape by (simp add: run_pattern)

lemma safe_filename_gui_T: "safe_filename_gui (str ''T'') = str ''T''"
  by (simp add: safe_filename_gui_def str_def strip_def rmatch_once rmatch_many1_last
      tab_nl_cr_def reserved_def isspace_def)

lemma or_else_T: "or_else (Some (str ''T'')) d = str ''T''"
  by (simp add: or_else_def str_def)

lemma or_else_x: "or_else (Some (str ''x'')) d = str ''x''"
  by (simp add: or_else_def str_def)

lemma cli_page_run:
  assumes "0 < x" and "x \<le> 9223372036"
  shows "cli_main lib0 (world0 (Loaded [Some (str ''/u'')]) (Page (Some (str ''T'')) (Some (str ''x''))))
           (args0\<lparr>min_delay := Num x, max_delay := Num (1 / 2)\<rparr>)
   = ([Goto (str ''https://ex.test/toc''), Wait 500, Goto (str ''https://ex.test/u''), Wait 500]
        @ save_events 1 (str ''T'') False (str ''https://ex.test/u'') (str ''x'')
        @ [Pace x],
      Inr (Finished [Extracted (str ''T'') (str ''x'') (str ''https://ex.test/u'')]))"
proof -
  let ?w = "world0 (Loaded [Some (str ''/u'')]) (Page (Some (str ''T'')) (Some (str ''x'')))"
  let ?a = "args0\<lparr>min_delay := Num x, max_delay := Num (1 / 2)\<rparr>"
  have t: "toc_page ?w = Loaded [Some (str ''/u'')]" by (simp add: world0_def)
  have l: "collect_links [Some (str ''/u'')] \<noteq> []" by (simp add: collect_links_u)
  have a: "\<not> dry_run ?a" "wait_after_load ?a = 500" "toc ?a = str ''https://ex.test/toc''"
    "max_chapters ?a = 20" "\<not> include_links ?a" "\<not> no_strip_ads ?a"
    by (simp_all add: args0_def)
  have d: "min_d ?a = Num x" using assms(1) by (simp add: min_d_def pymax_def)
  have v: "visit_at ?w k u = Page (Some (str ''T'')) (Some (str ''x''))" for k u
    by (simp add: world0_def)
  have L: "alnum lib0 = ascii_alnum" by (simp add: lib0_def)
  have c: "cli_chapter lib0 ?w ?a 1 (str ''https://ex.test/u'') 0
             (st0\<lparr>trace := [Goto (str ''https://ex.test/toc''), Wait 500]\<rparr>)
           = (Extracted (str ''T'') (str ''x'') (str ''https://ex.test/u''),
              \<lparr>trace = [Goto (str ''https://ex.test/toc''), Wait 500,
                        Goto (str ''https://ex.test/u''), Wait 500]
                  @ save_events 1 (str ''T'') False (str ''https://ex.test/u'') (str ''x''),
               navs = 1, draws = 0\<rparr>)"
    unfolding cli_chapter_page[OF v]
    by (simp add: Let_def a L or_else_T or_else_x safe_filename_cli_T clean_text_x st0_def)
  have r: "cli_chapters lib0 ?w ?a
             (enumerate1 (take (nat (max 1 (max_chapters ?a)))
                (map (absolute lib0 (str ''https://ex.test'')) (collect_links [Some (str ''/u'')]))))
             (st0\<lparr>trace := Goto (toc ?a)
                 # (if wait_after_load ?a \<noteq> 0 then [Wait (wait_after_load ?a)] else [])\<rparr>)
           = ([Extracted (str ''T'') (str ''x'') (str ''https://ex.test/u'')],
              \<lparr>trace = [Goto (str ''https://ex.test/toc''), Wait 500,
                        Goto (str ''https://ex.test/u''), Wait 500]
                  @ save_events 1 (str ''T'') False (str ''https://ex.test/u'') (str ''x'')
                  @ [Pace x],
               navs = 1, draws = 1\<rparr>)"
    using assms
    by (simp add: a collect_links_u lib0_absolute_u enumerate1_one cli_chapters_link
        c[unfolded One_nat_def] d sleep_polite_world0)
  show ?thesis using cli_main_run[OF lib0_valid t l lib0_base a(1) r] by simp
qed

lemma gui_page_run:
  assumes "0 \<le> x"
  shows "run_extraction lib0
           (world0 (Loaded [Some (str ''/u'')]) (Page (Some (str ''T'')) (Some (str ''x''))))
           (gui0\<lparr>min_delay_var := Num x, max_delay_var := Num (1 / 2)\<rparr>)
   = ([Goto (str ''https://ex.test/u''), Wait 500]
        @ save_events 1 (str ''T'') False (str ''https://ex.test/u'') (str ''x'')
        @ [Wait (py_int (x * 1000))],
      Inr (Finished [Extracted (str ''T'') (str ''x'') (str ''https://ex.test/u'')]))"
proof -
  let ?w = "world0 (Loaded [Some (str ''/u'')]) (Page (Some (str ''T'')) (Some (str ''x'')))"
  let ?g = "gui0\<lparr>min_delay_var := Num x, max_delay_var := Num (1 / 2)\<rparr>"
  have t: "toc_page ?w = Loaded [Some (str ''/u'')]" by (simp add: world0_def)
  have l: "collect_links [Some (str ''/u'')] \<noteq> []" by (simp add: collect_links_u)
  have g: "max_count_var ?g = 20" "\<not> include_links_var ?g" "strip_ads_var ?g"
    by (simp_all add: gui0_def)
  have d: "gui_min_d ?g = Num x" using assms by (simp add: gui_min_d_def)
  have v: "visit_at ?w k u = Page (Some (str ''T'')) (Some (str ''x''))" for k u
    by (simp add: world0_def)
  have ne: "or_else (Some (str ''x'')) [] \<noteq> []" by (simp add: or_else_def str_def)
  have L: "alnum lib0 = ascii_alnum" by (simp add: lib0_def)
  have u: "uniform ?w k (Num x) hi_d = Num x" for k hi_d by (simp add: world0_def)
  have c: "gui_chapters lib0 ?w False True (Num x) hi_d [(1, str ''https://ex.test/u'')] st0
           = ([Extracted (str ''T'') (str ''x'') (str ''https://ex.test/u'')],
              \<lparr>trace = [Goto (str ''https://ex.test/u''), Wait 500]
                  @ save_events 1 (str ''T'') False (str ''https://ex.test/u'') (str ''x'')
                  @ [Wait (py_int (x * 1000))],
               navs = 1, draws = 1\<rparr>)" for hi_d
    by (simp add: gui_chapters_step world0_running gui_chapter_page[OF v ne] L or_else_T
        or_else_x safe_filename_gui_T clean_text_x u ms_of_lib0 st0_def)
  have e: "enumerate1 (py_slice_to 20 (map (absolute lib0 (str ''https://ex.test''))
              (collect_links [Some (str ''/u'')])))
           = [(1, str ''https://ex.test/u'')]"
    by (simp add: collect_links_u lib0_absolute_u py_slice_to_def enumerate1_one)
  show ?thesis
    unfolding run_extraction_def t
    by (simp add: l lib0_base g d Let_def e c[unfolded One_nat_def])
qed

subsection \<open>The claim about the delays\<close>

text \<open>
  C9, as stated, fails for \<^verbatim>\<open>toc_playwright.py\<close>, which waits \<^verbatim>\<open>int(delay * 1000)\<close> milliseconds:
  with the inverted pair 1.0009765625 and 0.5 both bounds are clamped to 1.0009765625,
  the delay drawn is 1.0009765625, and the wait is 1000 ms, less than the lower bound.
\<close>

theorem gui_wait_below_min_delay:
  "fst (run_extraction lib0
          (world0 (Loaded [Some (str ''/u'')]) (Page (Some (str ''T'')) (Some (str ''x''))))
          (gui0\<lparr>min_delay_var := Num (1025 / 1024), max_delay_var := Num (1 / 2)\<rparr>))
     = [Goto (str ''https://ex.test/u''), Wait 500]
         @ save_events 1 (str ''T'') False (str ''https://ex.test/u'') (str ''x'')
         @ [Wait 1000]
   \<and> gui_min_d (gui0\<lparr>min_delay_var := Num (1025 / 1024), max_delay_var := Num (1 / 2)\<rparr>)
     = Num (1025 / 1024)
   \<and> gui_max_d (gui0\<lparr>min_delay_var := Num (1025 / 1024), max_delay_var := Num (1 / 2)\<rparr>)
     = Num (1025 / 1024)
   \<and> real_of_int 1000 / 1000 < max 0 (1025 / 1024)"
proof -
  have "(0::real) \<le> 1025 / 1024" by simp
  note r = gui_page_run[OF this]
  have p: "py_int (1025 / 1024 * 1000) = 1000" by (simp add: py_int_def)
  show ?thesis unfolding r p by (simp add: gui_min_d_def gui_max_d_def)
qed

text \<open>
  C9, amended. For finite delays \<open>x\<close> and \<open>y\<close>, with \<open>min' = max(0, x)\<close> and
  \<open>max' = max(min', y)\<close>: when \<^verbatim>\<open>time.sleep\<close> accepts \<open>max'\<close>, every delay \<^verbatim>\<open>cli_runner.py\<close> sleeps
  lies in \<open>[min', max']\<close>, the run is not ended by the delays, and it paces at least once
  per link. \<^verbatim>\<open>toc_playwright.py\<close> ends every chapter it saves with a wait of
  \<^verbatim>\<open>int(delay * 1000)\<close> milliseconds, which lies between \<^verbatim>\<open>int(min' * 1000)\<close> and
  \<^verbatim>\<open>int(max' * 1000)\<close>; its other wait is the settle wait of 500 ms. With the inverted
  pair 1.0 and 0.5 every delay slept is exactly 1 second, and every pacing wait 1000 ms.
\<close>

theorem pacing_delay_clamped:
  assumes "uniform_in_range w"
    and "min_delay a = Num x" and "max_delay a = Num y" and "max (max 0 x) y \<le> sleep_max L"
    and "min_delay_var g = Num x'" and "max_delay_var g = Num y'"
    and "ms_in_order L (max 0 x') (max (max 0 x') y')"
  shows "(\<forall>d. Pace d \<in> set (fst (cli_main L w a)) \<longrightarrow> max 0 x \<le> d \<and> d \<le> max (max 0 x) y)
     \<and> snd (cli_main L w a) \<noteq> Inl SleepOverflow
     \<and> (\<forall>rs. snd (cli_main L w a) = Inr (Finished rs) \<longrightarrow>
           length rs \<le> length (filter paces (fst (cli_main L w a))))
     \<and> (x = 1 \<and> y = 1 / 2 \<longrightarrow> (\<forall>d. Pace d \<in> set (fst (cli_main L w a)) \<longrightarrow> d = 1))
     \<and> (\<exists>lo_ms hi_ms.
           ms_of L (Num (max 0 x')) = Some lo_ms \<and> ms_of L (Num (max (max 0 x') y')) = Some hi_ms
           \<and> (\<forall>ms. Wait ms \<in> set (fst (run_extraction L w g)) \<longrightarrow>
                 ms = 500 \<or> (lo_ms \<le> ms \<and> ms \<le> hi_ms))
           \<and> (\<forall>s url t b idx incl ads.
                 visit_at w (navs s) url = Page t b \<and> or_else b [] \<noteq> [] \<longrightarrow>
                 (\<exists>ms. lo_ms \<le> ms \<and> ms \<le> hi_ms
                    \<and> trace (snd (gui_chapter L w incl ads (gui_min_d g) (gui_max_d g) idx url s))
                      = trace s @ [Goto url, Wait 500]
                          @ save_events idx
                              (safe_filename_gui (or_else t (str ''chapter_'' @ decimal idx)))
                              incl url (clean_text (alnum L) (or_else b []) (\<not> incl) ads)
                          @ [Wait ms])))
     \<and> (x' = 1 \<and> y' = 1 / 2 \<and> ms_of L (Num 1) = Some 1000 \<longrightarrow>
          (\<forall>ms. Wait ms \<in> set (fst (run_extraction L w g)) \<longrightarrow> ms = 500 \<or> ms = 1000))"
proof -
  define lo_d where "lo_d = max 0 x"
  define hi_d where "hi_d = max lo_d y"
  have b: "0 \<le> lo_d" "lo_d \<le> hi_d" by (simp_all add: lo_d_def hi_d_def)
  have c: "min_d a = Num lo_d" "max_d a = Num hi_d"
    using cli_clamps[OF assms(2,3)] by (simp_all add: lo_d_def hi_d_def)
  have p: "paced_within lo_d hi_d (fst (cli_main L w a))"
    by (rule cli_main_paced[OF assms(1) b c])
  have 1: "\<forall>d. Pace d \<in> set (fst (cli_main L w a)) \<longrightarrow> max 0 x \<le> d \<and> d \<le> max (max 0 x) y"
    using p by (simp add: paced_within_def lo_d_def hi_d_def)
  have sl: "sleep_polite L w (min_d a) (max_d a) s \<noteq> None" for s
    unfolding c using assms(1) b assms(4)[folded lo_d_def, folded hi_d_def]
    by (rule sleep_polite_accepts)
  have 2: "snd (cli_main L w a) \<noteq> Inl SleepOverflow"
    using sl by (rule cli_main_not_rejected(1))
  have 3: "\<forall>rs. snd (cli_main L w a) = Inr (Finished rs) \<longrightarrow>
             length rs \<le> length (filter paces (fst (cli_main L w a)))"
    using cli_main_not_rejected(2)[of L w a] sl by blast
  have 4: "x = 1 \<and> y = 1 / 2 \<longrightarrow> (\<forall>d. Pace d \<in> set (fst (cli_main L w a)) \<longrightarrow> d = 1)"
    using 1 by auto
  define lo_g where "lo_g = max 0 x'"
  define hi_g where "hi_g = max lo_g y'"
  have bg: "lo_g \<le> hi_g" by (simp add: hi_g_def)
  have cg: "gui_min_d g = Num lo_g" "gui_max_d g = Num hi_g"
    using gui_clamps[OF assms(5,6)] by (simp_all add: lo_g_def hi_g_def)
  have o: "ms_in_order L lo_g hi_g" using assms(7) by (simp add: lo_g_def hi_g_def)
  have "lo_g \<le> lo_g \<and> lo_g \<le> hi_g \<and> hi_g \<le> hi_g" using bg by simp
  then obtain lo_ms hi_ms where
    m: "ms_of L (Num lo_g) = Some lo_ms" "ms_of L (Num hi_g) = Some hi_ms"
    using o unfolding ms_in_order_def by blast
  have ww: "waits_within lo_ms hi_ms (fst (run_extraction L w g))"
    by (rule run_extraction_waits[OF assms(1) o bg m cg])
  have 5: "\<forall>ms. Wait ms \<in> set (fst (run_extraction L w g)) \<longrightarrow>
             ms = 500 \<or> (lo_ms \<le> ms \<and> ms \<le> hi_ms)"
    using ww by (simp add: waits_within_def)
  have 6: "\<exists>ms. lo_ms \<le> ms \<and> ms \<le> hi_ms
             \<and> trace (snd (gui_chapter L w incl ads (gui_min_d g) (gui_max_d g) idx url s))
               = trace s @ [Goto url, Wait 500]
                   @ save_events idx
                       (safe_filename_gui (or_else t (str ''chapter_'' @ decimal idx)))
                       incl url (clean_text (alnum L) (or_else b []) (\<not> incl) ads)
                   @ [Wait ms]"
    if "visit_at w (navs s) url = Page t b \<and> or_else b [] \<noteq> []" for s url t b idx incl ads
  proof -
    have v: "visit_at w (navs s) url = Page t b" and ne: "or_else b [] \<noteq> []"
      using that by simp_all
    obtain ms where "ms_of L (uniform w (draws s) (Num lo_g) (Num hi_g)) = Some ms"
      "lo_ms \<le> ms" "ms \<le> hi_ms"
      using gui_wait_range[OF assms(1) o bg, of "draws s"] m by auto
    then show ?thesis unfolding cg gui_chapter_page[OF v ne] by simp
  qed
  have 7: "x' = 1 \<and> y' = 1 / 2 \<and> ms_of L (Num 1) = Some 1000 \<longrightarrow>
             (\<forall>ms. Wait ms \<in> set (fst (run_extraction L w g)) \<longrightarrow> ms = 500 \<or> ms = 1000)"
  proof (intro impI)
    assume h: "x' = 1 \<and> y' = 1 / 2 \<and> ms_of L (Num 1) = Some 1000"
    then have "lo_g = 1" "hi_g = 1" by (simp_all add: lo_g_def hi_g_def)
    then have "lo_ms = 1000" "hi_ms = 1000" using m h by simp_all
    then show "\<forall>ms. Wait ms \<in> set (fst (run_extraction L w g)) \<longrightarrow> ms = 500 \<or> ms = 1000"
      using 5 by auto
  qed
  have 56: "\<exists>lo_ms hi_ms.
           ms_of L (Num (max 0 x')) = Some lo_ms \<and> ms_of L (Num (max (max 0 x') y')) = Some hi_ms
           \<and> (\<forall>ms. Wait ms \<in> set (fst (run_extraction L w g)) \<longrightarrow>
                 ms = 500 \<or> (lo_ms \<le> ms \<and> ms \<le> hi_ms))
           \<and> (\<forall>s url t b idx incl ads.
                 visit_at w (navs s) url = Page t b \<and> or_else b [] \<noteq> [] \<longrightarrow>
                 (\<exists>ms. lo_ms \<le> ms \<and> ms \<le> hi_ms
                    \<and> trace (snd (gui_chapter L w incl ads (gui_min_d g) (gui_max_d g) idx url s))
                      = trace s @ [Goto url, Wait 500]
                          @ save_events idx
                              (safe_filename_gui (or_else t (str ''chapter_'' @ decimal idx)))
                              incl url (clean_text (alnum L) (or_else b []) (\<not> incl) ads)
                          @ [Wait ms]))"
    using m[unfolded lo_g_def hi_g_def, folded lo_g_def] 5 6
    unfolding lo_g_def hi_g_def by blast
  show ?thesis using 1 2 3 4 56 7 by blast
qed

theorem pacing_delay_clamped_witness:
  "fst (cli_main lib0
          (world0 (Loaded [Some (str ''/u'')]) (Page (Some (str ''T'')) (Some (str ''x''))))
          (args0\<lparr>min_delay := Num 1, max_delay := Num (1 / 2)\<rparr>))
     = [Goto (str ''https://ex.test/toc''), Wait 500, Goto (str ''https://ex.test/u''), Wait 500]
         @ save_events 1 (str ''T'') False (str ''https://ex.test/u'') (str ''x'')
         @ [Pace 1]
   \<and> snd (cli_main lib0
          (world0 (Loaded [Some (str ''/u'')]) (Page (Some (str ''T'')) (Some (str ''x''))))
          (args0\<lparr>min_delay := Num 1, max_delay := Num (1 / 2)\<rparr>)) \<noteq> Inl SleepOverflow
   \<and> fst (run_extraction lib0
          (world0 (Loaded [Some (str ''/u'')]) (Page (Some (str ''T'')) (Some (str ''x''))))
          (gui0\<lparr>min_delay_var := Num 1, max_delay_var := Num (1 / 2)\<rparr>))
     = [Goto (str ''https://ex.test/u''), Wait 500]
         @ save_events 1 (str ''T'') False (str ''https://ex.test/u'') (str ''x'')
         @ [Wait 1000]
   \<and> max (max 0 1) (1 / 2) \<le> sleep_max lib0
   \<and> ms_of lib0 (Num 1) = Some 1000"
proof -
  let ?w = "world0 (Loaded [Some (str ''/u'')]) (Page (Some (str ''T'')) (Some (str ''x'')))"
  let ?a = "args0\<lparr>min_delay := Num 1, max_delay := Num (1 / 2)\<rparr>"
  let ?g = "gui0\<lparr>min_delay_var := Num 1, max_delay_var := Num (1 / 2)\<rparr>"
  have u: "uniform_in_range ?w" by (rule uniform_in_range_world0)
  have a: "min_delay ?a = Num 1" "max_delay ?a = Num (1 / 2)" by simp_all
  have s: "max (max 0 1) (1 / 2) \<le> sleep_max lib0" by (simp add: lib0_def)
  have g: "min_delay_var ?g = Num 1" "max_delay_var ?g = Num (1 / 2)" by simp_all
  have o: "ms_in_order lib0 (max 0 1) (max (max 0 1) (1 / 2))" by (rule ms_in_order_lib0)
  have m: "ms_of lib0 (Num 1) = Some 1000" by (simp add: ms_of_lib0 py_int_def)
  have c: "fst (cli_main lib0 ?w ?a)
     = [Goto (str ''https://ex.test/toc''), Wait 500, Goto (str ''https://ex.test/u''), Wait 500]
         @ save_events 1 (str ''T'') False (str ''https://ex.test/u'') (str ''x'')
         @ [Pace 1]"
    using cli_page_run[of 1] by simp
  have r: "fst (run_extraction lib0 ?w ?g)
     = [Goto (str ''https://ex.test/u''), Wait 500]
         @ save_events 1 (str ''T'') False (str ''https://ex.test/u'') (str ''x'')
         @ [Wait 1000]"
    using gui_page_run[of 1] by (simp add: py_int_def)
  show ?thesis
    using pacing_delay_clamped[OF u a s g o] c r s m by blast
qed

section \<open>Links in the saved text\<close>



















end
